theory Spec2Isabelle
  imports Main "HOL-Library.Multiset"
begin

section \<open>Strings of the host\<close>

text \<open>
  A JavaScript string is a sequence of UTF-16 code units. The script never does
  arithmetic on them: it compares, trims and replaces. A code unit is modelled as
  the number it holds. Tag names, class names and attribute names are only ever
  compared with ASCII literals of the script, and are kept as HOL strings.
\<close>

type_synonym jsstring = "nat list"

definition str :: "string \<Rightarrow> jsstring" where
  "str s = map of_char s"

text \<open>
  The code units \<open>String.prototype.trim\<close> strips and the regular expression
  class \<open>\s\<close> matches: WhiteSpace and LineTerminator of ECMAScript.
\<close>

definition isWhiteSpace :: "nat \<Rightarrow> bool" where
  "isWhiteSpace c = (c \<in> set [9, 10, 11, 12, 13, 32, 160, 5760, 8232, 8233, 8239, 8287, 12288, 65279]
     \<or> (8192 \<le> c \<and> c \<le> 8202))"

definition trim :: "jsstring \<Rightarrow> jsstring" where
  "trim s = rev (dropWhile isWhiteSpace (rev (dropWhile isWhiteSpace s)))"

text \<open>
  Two functions of the browser cannot be written out here: Unicode normalisation
  (\<open>String.prototype.normalize('NFC')\<close>) and the collation behind
  \<open>localeCompare(_, undefined, {sensitivity: 'base'})\<close>, whose result is negative,
  zero or positive. Both are parameters of the model.
\<close>

record host =
  normalizeNFC :: "jsstring \<Rightarrow> jsstring"
  localeCompare :: "jsstring \<Rightarrow> jsstring \<Rightarrow> int"

text \<open>\<open>const normalize = (s) => (s || '').trim().normalize('NFC')\<close>\<close>

definition normalize :: "host \<Rightarrow> jsstring \<Rightarrow> jsstring" where
  "normalize h s = normalizeNFC h (trim s)"

fun startsWith :: "'a list \<Rightarrow> 'a list \<Rightarrow> bool" where
  "startsWith [] ys = True"
| "startsWith (x # xs) [] = False"
| "startsWith (x # xs) (y # ys) = (x = y \<and> startsWith xs ys)"

text \<open>\<open>includes_run needle hay\<close>: the needle occurs in the hay as a contiguous run.\<close>

fun includes_run :: "'a list \<Rightarrow> 'a list \<Rightarrow> bool" where
  "includes_run needle [] = (needle = [])"
| "includes_run needle (y # ys) = (startsWith needle (y # ys) \<or> includes_run needle ys)"

section \<open>The document tree\<close>

text \<open>
  An element carries an identity (the object reference of the DOM), its local name,
  the tokens of its class attribute, its other attributes and its child nodes. Text
  nodes carry their data. Comments and processing instructions do not influence
  any operation of the script and are left out.
\<close>

datatype node =
    Element (nid: nat) (tagName: string) (classList: "string list")
            (attributes: "(string \<times> jsstring) list") (childNodes: "node list")
  | Text jsstring

text \<open>\<open>Node.textContent\<close> of an element: the data of its text descendants, in order.\<close>

fun textContent :: "node \<Rightarrow> jsstring" where
  "textContent (Text s) = s"
| "textContent (Element i t c a ks) = concat (map textContent ks)"

text \<open>
  An entry is an element together with the chain of its ancestor elements, the
  nearest first. \<open>walk anc n\<close> lists the entries of the elements of the subtree
  \<open>n\<close> in document order (pre-order), \<open>anc\<close> being the chain above \<open>n\<close>.
\<close>

type_synonym entry = "node list \<times> node"

fun walk :: "node list \<Rightarrow> node \<Rightarrow> entry list" where
  "walk anc (Text s) = []"
| "walk anc (Element i t c a ks) =
     (anc, Element i t c a ks) # concat (map (walk (Element i t c a ks # anc)) ks)"

definition walks :: "node list \<Rightarrow> node list \<Rightarrow> entry list" where
  "walks anc ns = concat (map (walk anc) ns)"

text \<open>
  The entries strictly below an element: what \<open>el.querySelectorAll\<close> ranges
  over. (A text node has no children; no entry holds one.)
\<close>

definition descendants :: "entry \<Rightarrow> entry list" where
  "descendants e =
     (case snd e of
        Element i t c a ks \<Rightarrow> walks (snd e # fst e) ks
      | Text s \<Rightarrow> [])"

text \<open>
  The interface an element object implements is fixed when the element is created,
  by its namespace. An HTML element has \<open>dataset\<close> and \<open>click()\<close>; an SVG or
  a MathML element has \<open>dataset\<close> and no \<open>click\<close>; an element of another
  namespace has neither.
\<close>

datatype interface = HTMLElement | SVGElement | MathMLElement | OtherElement

definition has_dataset :: "interface \<Rightarrow> bool" where
  "has_dataset f = (f \<noteq> OtherElement)"

definition has_click :: "interface \<Rightarrow> bool" where
  "has_click f = (f = HTMLElement)"

text \<open>
  The page: the children of the Document node, the roots of the subtrees that
  were detached from it (a removed element stays reachable from the script's
  NodeList and keeps its own subtree), and the interface of each element object.
\<close>

record dom =
  document :: "node list"
  detached :: "node list"
  interfaceOf :: "nat \<Rightarrow> interface"

definition doc_entries :: "dom \<Rightarrow> entry list" where
  "doc_entries d = walks [] (document d)"

definition all_entries :: "dom \<Rightarrow> entry list" where
  "all_entries d = walks [] (document d) @ walks [] (detached d)"

definition eid :: "entry \<Rightarrow> nat" where
  "eid e = nid (snd e)"

text \<open>The element an object reference denotes in the current tree.\<close>

definition entry_of :: "dom \<Rightarrow> nat \<Rightarrow> entry option" where
  "entry_of d i = find (\<lambda>e. eid e = i) (all_entries d)"

text \<open>
  No two elements share an identity. The operations below are meaningful on such
  pages only.
\<close>

definition wf_dom :: "dom \<Rightarrow> bool" where
  "wf_dom d = distinct (map eid (all_entries d))"

subsection \<open>Selectors\<close>

definition hasClass :: "string \<Rightarrow> node \<Rightarrow> bool" where
  "hasClass c n = (c \<in> set (classList n))"

definition getAttribute :: "string \<Rightarrow> node \<Rightarrow> jsstring option" where
  "getAttribute a n = map_of (attributes n) a"

text \<open>\<open>span.cbg1qdk\<close>\<close>

definition is_span_cbg1qdk :: "node \<Rightarrow> bool" where
  "is_span_cbg1qdk n = (tagName n = ''span'' \<and> hasClass ''cbg1qdk'' n)"

text \<open>\<open>div.deu1fhf\<close>\<close>

definition is_div_deu1fhf :: "node \<Rightarrow> bool" where
  "is_div_deu1fhf n = (tagName n = ''div'' \<and> hasClass ''deu1fhf'' n)"

text \<open>\<open>div\<close>\<close>

definition is_div :: "node \<Rightarrow> bool" where
  "is_div n = (tagName n = ''div'')"

text \<open>
  \<open>svg use[href*="/api/v2/diagrams/instruments/"]\<close>: a \<open>use\<close> element whose
  \<open>href\<close> attribute contains the path, below some \<open>svg\<close> element. The
  \<open>svg\<close> ancestor is looked for in the whole chain of the element, as selector
  matching does, also when the query starts at an element below it.
\<close>

definition is_svg_use :: "entry \<Rightarrow> bool" where
  "is_svg_use e =
     (tagName (snd e) = ''use''
      \<and> (case getAttribute ''href'' (snd e) of
           None \<Rightarrow> False
         | Some v \<Rightarrow> includes_run (str ''/api/v2/diagrams/instruments/'') v)
      \<and> list_ex (\<lambda>a. tagName a = ''svg'') (fst e))"

text \<open>\<open>Element.closest\<close> for a selector that looks at one element only.\<close>

fun closest_in :: "(node \<Rightarrow> bool) \<Rightarrow> node list \<Rightarrow> entry option" where
  "closest_in P [] = None"
| "closest_in P (n # anc) = (if P n then Some (anc, n) else closest_in P anc)"

definition closest :: "(node \<Rightarrow> bool) \<Rightarrow> entry \<Rightarrow> entry option" where
  "closest P e = closest_in P (snd e # fst e)"

subsection \<open>Mutations\<close>

definition is_elem :: "nat set \<Rightarrow> node \<Rightarrow> bool" where
  "is_elem R n = (case n of Element i t c a ks \<Rightarrow> i \<in> R | Text s \<Rightarrow> False)"

text \<open>\<open>prune R n\<close>: the subtree \<open>n\<close> without the subtrees of the elements in \<open>R\<close>.\<close>

fun prune :: "nat set \<Rightarrow> node \<Rightarrow> node" where
  "prune R (Text s) = Text s"
| "prune R (Element i t c a ks) =
     Element i t c a (map (prune R) (filter (\<lambda>k. \<not> is_elem R k) ks))"

definition cut :: "nat set \<Rightarrow> node list \<Rightarrow> node list" where
  "cut R ns = map (prune R) (filter (\<lambda>k. \<not> is_elem R k) ns)"

definition root_ids :: "node list \<Rightarrow> nat list" where
  "root_ids ns = concat (map (\<lambda>n. case n of Element i t c a ks \<Rightarrow> [i] | Text s \<Rightarrow> []) ns)"

text \<open>
  \<open>el.remove()\<close>: the element leaves its parent and becomes the root of a
  detached subtree. An element without a parent stays as it is.
\<close>

definition remove_node :: "nat \<Rightarrow> dom \<Rightarrow> dom" where
  "remove_node i d =
     (if i \<in> set (root_ids (detached d)) then d
      else case entry_of d i of
             None \<Rightarrow> d
           | Some e \<Rightarrow> d\<lparr>document := cut {i} (document d),
                         detached := cut {i} (detached d) @ [snd e]\<rparr>)"

section \<open>Removing the chords already known\<close>

text \<open>The blocklist of the script, in code units: the subscript m is 8344, the flat sign 9837.\<close>

definition blockedChordsList :: "jsstring list" where
  "blockedChordsList =
     [[65], [66], [67], [68], [69], [70], [71],
      [65, 8344], [66, 8344], [67, 8344], [68, 8344], [69, 8344], [70, 8344], [71, 8344],
      [65, 9837], [66, 9837], [67, 9837], [68, 9837], [69, 9837], [70, 9837], [71, 9837],
      [65, 9837, 8344], [66, 9837, 8344], [67, 9837, 8344], [68, 9837, 8344],
      [69, 9837, 8344], [70, 9837, 8344], [71, 9837, 8344]]"

text \<open>
  \<open>isTargetSpan\<close>, with the Set \<open>blockedChords\<close> passed as the list of its members.
\<close>

definition isTargetSpan :: "host \<Rightarrow> jsstring list \<Rightarrow> node \<Rightarrow> bool" where
  "isTargetSpan h blocked span =
     (hasClass ''cbg1qdk'' span \<and> normalize h (textContent span) \<in> set blocked)"

text \<open>\<open>isChordBlock\<close>: the element has a descendant matching the diagram selector.\<close>

definition isChordBlock :: "entry \<Rightarrow> bool" where
  "isChordBlock el = list_ex is_svg_use (descendants el)"

text \<open>\<open>span.closest('div.deu1fhf') || span.closest('div')\<close>\<close>

definition chordContainerFor :: "entry \<Rightarrow> entry option" where
  "chordContainerFor span =
     (case closest is_div_deu1fhf span of
        Some c \<Rightarrow> Some c
      | None \<Rightarrow> closest is_div span)"

text \<open>
  The root a query starts from: the document, or an element. A query from an
  element ranges over its descendants, the element itself excluded.
\<close>

datatype root = Document | Node nat

definition query_root :: "dom \<Rightarrow> root \<Rightarrow> entry list" where
  "query_root d r =
     (case r of
        Document \<Rightarrow> doc_entries d
      | Node i \<Rightarrow> (case entry_of d i of None \<Rightarrow> [] | Some e \<Rightarrow> descendants e))"

definition querySelectorAll :: "(entry \<Rightarrow> bool) \<Rightarrow> dom \<Rightarrow> root \<Rightarrow> nat list" where
  "querySelectorAll sel d r = map eid (filter sel (query_root d r))"

text \<open>
  The body of the \<open>forEach\<close> of \<open>purge\<close> for one span of the (static) NodeList,
  read in the tree as it is when the span's turn comes.
\<close>

definition purge_span :: "host \<Rightarrow> jsstring list \<Rightarrow> dom \<Rightarrow> entry \<Rightarrow> dom" where
  "purge_span h blocked d span =
     (if \<not> isTargetSpan h blocked (snd span) then d
      else case chordContainerFor span of
             None \<Rightarrow> d
           | Some container \<Rightarrow>
               if isChordBlock container then remove_node (eid container) d else d)"

definition purge_step :: "host \<Rightarrow> jsstring list \<Rightarrow> nat \<Rightarrow> dom \<Rightarrow> dom" where
  "purge_step h blocked s d =
     (case entry_of d s of None \<Rightarrow> d | Some span \<Rightarrow> purge_span h blocked d span)"

definition purge :: "host \<Rightarrow> jsstring list \<Rightarrow> root \<Rightarrow> dom \<Rightarrow> dom" where
  "purge h blocked r d =
     fold (purge_step h blocked) (querySelectorAll (\<lambda>e. is_span_cbg1qdk (snd e)) d r) d"

section \<open>Sorting the remaining blocks\<close>

text \<open>
  \<open>parent.appendChild(el)\<close> throws when \<open>el\<close> is the parent or one of its
  ancestors. Otherwise \<open>el\<close> leaves the place it has and becomes the last child
  of the parent. An outcome keeps the page as it is when the exception is thrown.
\<close>

datatype error = HierarchyRequestError | TypeError

datatype outcome = Done dom | Threw error dom

fun graft :: "nat \<Rightarrow> node \<Rightarrow> node \<Rightarrow> node" where
  "graft p x (Text s) = Text s"
| "graft p x (Element i t c a ks) =
     Element i t c a (map (graft p x) ks @ (if i = p then [x] else []))"

definition appendChild :: "nat \<Rightarrow> nat \<Rightarrow> dom \<Rightarrow> outcome" where
  "appendChild p el d =
     (case entry_of d p of
        None \<Rightarrow> Done d
      | Some pe \<Rightarrow>
         (case entry_of d el of
            None \<Rightarrow> Done d
          | Some ee \<Rightarrow>
              if el \<in> set (map nid (snd pe # fst pe)) then Threw HierarchyRequestError d
              else Done (d\<lparr>document := map (graft p (snd ee)) (cut {el} (document d)),
                          detached := map (graft p (snd ee)) (cut {el} (detached d))\<rparr>)))"

text \<open>
  \<open>chordKey\<close>: the text of the first \<open>span.cbg1qdk\<close> below the element (the empty
  string when there is none), normalised, without white space, the subscript m,
  the flat and the sharp sign replaced by \<open>m\<close>, \<open>b\<close> and \<open>#\<close>.
\<close>

definition replaceAll :: "nat \<Rightarrow> nat \<Rightarrow> jsstring \<Rightarrow> jsstring" where
  "replaceAll a b t = map (\<lambda>c. if c = a then b else c) t"

definition chordKey :: "host \<Rightarrow> entry \<Rightarrow> jsstring" where
  "chordKey h el =
     (let t = normalize h
                (case find (\<lambda>e. is_span_cbg1qdk (snd e)) (descendants el) of
                   None \<Rightarrow> []
                 | Some span \<Rightarrow> textContent (snd span))
      in replaceAll 9839 35 (replaceAll 9837 98 (replaceAll 8344 109
           (filter (\<lambda>c. \<not> isWhiteSpace c) t))))"

definition key_of :: "host \<Rightarrow> dom \<Rightarrow> nat \<Rightarrow> jsstring" where
  "key_of h d i = (case entry_of d i of None \<Rightarrow> [] | Some e \<Rightarrow> chordKey h e)"

text \<open>
  \<open>Array.prototype.sort\<close> with a comparison function: a stable sort. Insertion
  from the right keeps elements that compare equal in their order.
\<close>

fun insort_by :: "('a \<Rightarrow> 'a \<Rightarrow> int) \<Rightarrow> 'a \<Rightarrow> 'a list \<Rightarrow> 'a list" where
  "insort_by cmp x [] = [x]"
| "insort_by cmp x (y # ys) = (if cmp x y \<le> 0 then x # y # ys else y # insort_by cmp x ys)"

definition sort_by :: "('a \<Rightarrow> 'a \<Rightarrow> int) \<Rightarrow> 'a list \<Rightarrow> 'a list" where
  "sort_by cmp xs = foldr (insort_by cmp) xs []"

definition parentElement :: "entry \<Rightarrow> nat option" where
  "parentElement e = (case fst e of [] \<Rightarrow> None | p # anc \<Rightarrow> Some (nid p))"

text \<open>The Map \<open>byParent\<close>: keys in the order of their first insertion.\<close>

fun byParent_push :: "nat \<Rightarrow> nat \<Rightarrow> (nat \<times> nat list) list \<Rightarrow> (nat \<times> nat list) list" where
  "byParent_push p b [] = [(p, [b])]"
| "byParent_push p b ((q, l) # m) =
     (if q = p then (q, l @ [b]) # m else (q, l) # byParent_push p b m)"

definition group_blocks :: "entry list \<Rightarrow> (nat \<times> nat list) list" where
  "group_blocks blocks =
     fold (\<lambda>b m. case parentElement b of None \<Rightarrow> m | Some p \<Rightarrow> byParent_push p (eid b) m)
       blocks []"

fun append_all :: "nat \<Rightarrow> nat list \<Rightarrow> dom \<Rightarrow> outcome" where
  "append_all parent [] d = Done d"
| "append_all parent (el # els) d =
     (case appendChild parent el d of
        Threw e d' \<Rightarrow> Threw e d'
      | Done d' \<Rightarrow> append_all parent els d')"

definition sort_group :: "host \<Rightarrow> dom \<Rightarrow> nat list \<Rightarrow> nat list" where
  "sort_group h d list = sort_by (\<lambda>a b. localeCompare h (key_of h d a) (key_of h d b)) list"

fun sort_groups :: "host \<Rightarrow> (nat \<times> nat list) list \<Rightarrow> dom \<Rightarrow> outcome" where
  "sort_groups h [] d = Done d"
| "sort_groups h ((parent, list) # gs) d =
     (case append_all parent (sort_group h d list) d of
        Threw e d' \<Rightarrow> Threw e d'
      | Done d' \<Rightarrow> sort_groups h gs d')"

definition chord_blocks :: "dom \<Rightarrow> entry list" where
  "chord_blocks d = filter isChordBlock (filter (\<lambda>e. is_div_deu1fhf (snd e)) (doc_entries d))"

definition sortChordBlocks :: "host \<Rightarrow> dom \<Rightarrow> outcome" where
  "sortChordBlocks h d =
     (let blocks = chord_blocks d
      in if length blocks < 2 then Done d else sort_groups h (group_blocks blocks) d)"

section \<open>The script and its state\<close>

text \<open>
  What the closure of the script holds and what it acts on: the page, the calls of
  \<open>click()\<close> made so far (the page's own reaction to a click is not part of the
  script), the flag \<open>_sortPending\<close>, the number of timeouts set and not yet
  run, \<open>lastTick\<close>, and the members of the Set \<open>blockedChords\<close>. The script
  catches no exception: one that is thrown ends the activation under way (the
  callback the browser has called) and is kept in \<open>uncaught\<close>.
\<close>

record script =
  page :: dom
  clicked :: "nat list"
  sortPending :: bool
  timers :: nat
  lastTick :: int
  blockedChords :: "jsstring list"
  uncaught :: "error option"

definition init :: "dom \<Rightarrow> script" where
  "init d = \<lparr>page = d, clicked = [], sortPending = False, timers = 0, lastTick = 0,
             blockedChords = blockedChordsList, uncaught = None\<rparr>"

text \<open>\<open>queueSort\<close> and the callback it hands to \<open>setTimeout\<close>.\<close>

definition queueSort :: "script \<Rightarrow> script" where
  "queueSort s = (if sortPending s then s else s\<lparr>sortPending := True, timers := timers s + 1\<rparr>)"

definition outcome_dom :: "outcome \<Rightarrow> dom" where
  "outcome_dom r = (case r of Done d \<Rightarrow> d | Threw e d \<Rightarrow> d)"

definition sort_timeout :: "host \<Rightarrow> script \<Rightarrow> script" where
  "sort_timeout h s =
     (let s1 = s\<lparr>sortPending := False, timers := timers s - 1\<rparr>
      in case sortChordBlocks h (page s1) of
           Done d \<Rightarrow> s1\<lparr>page := d\<rparr>
         | Threw e d \<Rightarrow> s1\<lparr>page := d, uncaught := Some e\<rparr>)"

subsection \<open>Selecting the Summary view\<close>

definition onDiagramsPage :: "dom \<Rightarrow> bool" where
  "onDiagramsPage d = list_ex (\<lambda>e. hasClass ''view-diagrams'' (snd e)) (doc_entries d)"

text \<open>\<open>button, [role="button"], a\<close>\<close>

definition is_candidate :: "node \<Rightarrow> bool" where
  "is_candidate n =
     (tagName n = ''button'' \<or> getAttribute ''role'' n = Some (str ''button'') \<or> tagName n = ''a'')"

text \<open>
  \<open>/^summary$/i\<close>: without the \<open>u\<close> flag a code unit is compared by its upper
  case, and a code unit outside ASCII never stands for an ASCII one. So a code unit
  matches a letter of the pattern when it is that letter in either case.
\<close>

definition toUpperASCII :: "nat \<Rightarrow> nat" where
  "toUpperASCII c = (if 97 \<le> c \<and> c \<le> 122 then c - 32 else c)"

definition matches_ignoreCase :: "nat \<Rightarrow> nat \<Rightarrow> bool" where
  "matches_ignoreCase p c = (c < 128 \<and> toUpperASCII c = toUpperASCII p)"

definition test_summary :: "jsstring \<Rightarrow> bool" where
  "test_summary txt = list_all2 matches_ignoreCase (str ''summary'') txt"

text \<open>
  \<open>el.dataset._clickedSummary\<close> is the attribute \<open>data-_clicked-summary\<close>; it
  counts as set when it is there and not empty.
\<close>

definition clickedSummary :: "node \<Rightarrow> bool" where
  "clickedSummary n =
     (case getAttribute ''data-_clicked-summary'' n of None \<Rightarrow> False | Some v \<Rightarrow> v \<noteq> [])"

fun put_attribute :: "string \<Rightarrow> jsstring \<Rightarrow> (string \<times> jsstring) list \<Rightarrow> (string \<times> jsstring) list" where
  "put_attribute k v [] = [(k, v)]"
| "put_attribute k v ((k', v') # as) =
     (if k' = k then (k, v) # as else (k', v') # put_attribute k v as)"

fun setAttribute :: "nat \<Rightarrow> string \<Rightarrow> jsstring \<Rightarrow> node \<Rightarrow> node" where
  "setAttribute el k v (Text s) = Text s"
| "setAttribute el k v (Element i t c a ks) =
     Element i t c (if i = el then put_attribute k v a else a) (map (setAttribute el k v) ks)"

definition mark_clicked :: "nat \<Rightarrow> dom \<Rightarrow> dom" where
  "mark_clicked el d =
     d\<lparr>document := map (setAttribute el ''data-_clicked-summary'' (str ''1'')) (document d),
       detached := map (setAttribute el ''data-_clicked-summary'' (str ''1'')) (detached d)\<rparr>"

text \<open>
  The loop over the candidates. Nothing changes before the \<open>break\<close>, so every
  candidate is read as the query returned it. For a candidate whose text matches:
  reading \<open>el.dataset._clickedSummary\<close> throws a TypeError when the element has
  no \<open>dataset\<close>; when the mark is not set it is written, and then \<open>el.click()\<close>
  throws a TypeError when the element has no \<open>click\<close>. An exception leaves the
  loop and the function.
\<close>

fun click_first :: "host \<Rightarrow> entry list \<Rightarrow> script \<Rightarrow> script" where
  "click_first h [] s = s"
| "click_first h (el # els) s =
     (let txt = normalize h (textContent (snd el))
      in if txt = [] then click_first h els s
         else if \<not> test_summary txt then click_first h els s
         else if \<not> has_dataset (interfaceOf (page s) (eid el))
           then s\<lparr>uncaught := Some TypeError\<rparr>
         else if clickedSummary (snd el) then click_first h els s
         else if has_click (interfaceOf (page s) (eid el))
           then s\<lparr>page := mark_clicked (eid el) (page s), clicked := clicked s @ [eid el]\<rparr>
           else s\<lparr>page := mark_clicked (eid el) (page s), uncaught := Some TypeError\<rparr>)"

definition clickSummaryIfPresent :: "host \<Rightarrow> root \<Rightarrow> script \<Rightarrow> script" where
  "clickSummaryIfPresent h r s =
     (if \<not> onDiagramsPage (page s) then s
      else click_first h (filter (\<lambda>e. is_candidate (snd e)) (query_root (page s) r)) s)"

subsection \<open>Start, mutation observer and polling\<close>

text \<open>
  \<open>start\<close>: the call of \<open>clickSummaryIfPresent\<close> is the last statement, so an
  exception it throws skips nothing.
\<close>

definition start :: "host \<Rightarrow> script \<Rightarrow> script" where
  "start h s =
     clickSummaryIfPresent h Document
       (queueSort (s\<lparr>page := purge h (blockedChords s) Document (page s)\<rparr>))"

text \<open>
  The filter of the observer's callback for one added element: the page after it,
  and whether \<open>touched\<close> was set.
\<close>

definition observe_filter :: "host \<Rightarrow> jsstring list \<Rightarrow> nat \<Rightarrow> dom \<Rightarrow> dom \<times> bool" where
  "observe_filter h blocked node d =
     (case entry_of d node of
        None \<Rightarrow> (d, False)
      | Some e \<Rightarrow>
          if is_span_cbg1qdk (snd e) \<and> isTargetSpan h blocked (snd e) then
            (case chordContainerFor e of
               None \<Rightarrow> (d, False)
             | Some container \<Rightarrow>
                 if isChordBlock container then (remove_node (eid container) d, True)
                 else (d, False))
          else if querySelectorAll (\<lambda>e. is_span_cbg1qdk (snd e)) d (Node node) \<noteq> []
            then (purge h blocked (Node node) d, True)
            else (d, False))"

text \<open>
  An added node is an element (its identity) or some other node. Once an exception
  is thrown the loops over the records and their nodes are left: the nodes that
  follow are not looked at.
\<close>

definition observe_node :: "host \<Rightarrow> nat option \<Rightarrow> script \<times> bool \<Rightarrow> script \<times> bool" where
  "observe_node h added st =
     (if uncaught (fst st) \<noteq> None then st
      else case added of
        None \<Rightarrow> st
      | Some node \<Rightarrow>
          (let s = fst st;
               r = observe_filter h (blockedChords s) node (page s)
           in (clickSummaryIfPresent h (Node node) (s\<lparr>page := fst r\<rparr>), snd st \<or> snd r)))"

text \<open>The callback of the observer; an exception skips the final \<open>queueSort\<close>.\<close>

definition observer :: "host \<Rightarrow> nat option list list \<Rightarrow> script \<Rightarrow> script" where
  "observer h mutations s =
     (let st = fold (observe_node h) (concat mutations) (s, False)
      in if uncaught (fst st) = None \<and> snd st then queueSort (fst st) else fst st)"

text \<open>
  \<open>tick\<close>; an exception thrown by \<open>clickSummaryIfPresent\<close> skips the call of
  \<open>queueSort\<close> that follows it.
\<close>

definition tick :: "host \<Rightarrow> int \<Rightarrow> script \<Rightarrow> script" where
  "tick h now s =
     (if now - lastTick s > 1500
      then (let s1 = clickSummaryIfPresent h Document (s\<lparr>lastTick := now\<rparr>)
            in if uncaught s1 = None then queueSort s1 else s1)
      else s)"

text \<open>
  What can happen to the script: it starts, the observer is called with mutation
  records, a timeout set by \<open>queueSort\<close> runs (only when one is pending), an
  animation frame arrives at some time. An activation begins with no exception
  under way; the one it ends with, if any, stays in \<open>uncaught\<close> until the next
  activation begins.

  The sequences of activations are not restricted further. The browser makes
  fewer: \<open>start\<close> runs once; when it is called while the script is loaded and
  throws, the observer and the polling are never installed; a \<open>tick\<close> that
  throws requests no further animation frame. What holds after every sequence
  below holds after those.
\<close>

datatype event = Start | Mutations "nat option list list" | Timeout | Frame int

definition step :: "host \<Rightarrow> event \<Rightarrow> script \<Rightarrow> script" where
  "step h ev s =
     (let s0 = s\<lparr>uncaught := None\<rparr>
      in case ev of
           Start \<Rightarrow> start h s0
         | Mutations ms \<Rightarrow> observer h ms s0
         | Timeout \<Rightarrow> (if timers s = 0 then s else sort_timeout h s0)
         | Frame now \<Rightarrow> tick h now s0)"

definition run :: "host \<Rightarrow> event list \<Rightarrow> script \<Rightarrow> script" where
  "run h evs s = fold (step h) evs s"

section \<open>The claims' own notions, and example pages\<close>

text \<open>
  A text reads Summary when it is that word up to the case of its ASCII letters.
\<close>

definition summary_label :: "host \<Rightarrow> node \<Rightarrow> bool" where
  "summary_label h n =
     (map toUpperASCII (normalize h (textContent n)) = map toUpperASCII (str ''Summary''))"

text \<open>
  A host for the examples: its normalisation returns the text as it is (what NFC
  does on the texts of the examples), and its collation compares code units, the
  ASCII letters in upper case.
\<close>

fun units_compare :: "jsstring \<Rightarrow> jsstring \<Rightarrow> int" where
  "units_compare [] [] = 0"
| "units_compare [] (y # ys) = - 1"
| "units_compare (x # xs) [] = 1"
| "units_compare (x # xs) (y # ys) =
     (if toUpperASCII x < toUpperASCII y then - 1
      else if toUpperASCII y < toUpperASCII x then 1
      else units_compare xs ys)"

definition plain_host :: host where
  "plain_host = \<lparr>normalizeNFC = (\<lambda>s. s), localeCompare = units_compare\<rparr>"

text \<open>
  A page as the HTML parser builds it, nothing detached: an \<open>svg\<close> element and
  the elements below it are SVG elements, a \<open>math\<close> element and the elements
  below it are MathML elements, every other element is an HTML element.
\<close>

definition parsed_interface :: "node list \<Rightarrow> nat \<Rightarrow> interface" where
  "parsed_interface ns i =
     (case find (\<lambda>e. eid e = i) (walks [] ns) of
        None \<Rightarrow> HTMLElement
      | Some e \<Rightarrow>
          if list_ex (\<lambda>n. tagName n = ''svg'') (snd e # fst e) then SVGElement
          else if list_ex (\<lambda>n. tagName n = ''math'') (snd e # fst e) then MathMLElement
          else HTMLElement)"

definition parsed :: "node list \<Rightarrow> dom" where
  "parsed ns = \<lparr>document = ns, detached = [], interfaceOf = parsed_interface ns\<rparr>"

text \<open>A page without chords, diagrams or buttons.\<close>

definition page_plain :: dom where
  "page_plain =
     parsed
       [Element 0 ''body'' [] [] [Element 1 ''p'' [] [] [Text (str ''hello'')]]]"

text \<open>The Diagrams view with its two toggles and a second button of the same label.\<close>

definition page_toggles :: dom where
  "page_toggles =
     parsed
       [Element 0 ''body'' [''view-diagrams''] []
         [Element 1 ''a'' [] [] [Text (str ''Animated'')],
          Element 2 ''button'' [] [] [Text (str '' Summary '')],
          Element 3 ''button'' [] [] [Text (str ''summary'')]]]"

text \<open>
  The part of the script's state that only \<open>queueSort\<close>, the timeout and
  \<open>tick\<close> write.
\<close>

definition same_control :: "script \<Rightarrow> script \<Rightarrow> bool" where
  "same_control s s' =
     (sortPending s' = sortPending s \<and> timers s' = timers s \<and> lastTick s' = lastTick s
      \<and> blockedChords s' = blockedChords s)"

text \<open>At most one timeout is pending, and the flag says whether one is.\<close>

definition debounced :: "script \<Rightarrow> bool" where
  "debounced s = (timers s \<le> 1 \<and> (sortPending s \<longleftrightarrow> timers s = 1))"

text \<open>
  For the proofs: the elements of a subtree, and the pairs of identity and
  attributes found in a page, which no removal or move changes.
\<close>

fun elems :: "node \<Rightarrow> node list" where
  "elems (Text s) = []"
| "elems (Element i t c a ks) = Element i t c a ks # concat (map elems ks)"

definition forest_elems :: "node list \<Rightarrow> node list" where
  "forest_elems ns = concat (map elems ns)"

definition page_elems :: "dom \<Rightarrow> node list" where
  "page_elems d = forest_elems (document d) @ forest_elems (detached d)"

fun node_stamps :: "node \<Rightarrow> (nat \<times> (string \<times> jsstring) list) set" where
  "node_stamps (Text s) = {}"
| "node_stamps (Element i t c a ks) = insert (i, a) (\<Union>k\<in>set ks. node_stamps k)"

definition stamps :: "node list \<Rightarrow> (nat \<times> (string \<times> jsstring) list) set" where
  "stamps ns = (\<Union>n\<in>set ns. node_stamps n)"

definition page_stamps :: "dom \<Rightarrow> (nat \<times> (string \<times> jsstring) list) set" where
  "page_stamps d = stamps (document d) \<union> stamps (detached d)"

text \<open>Attributes that carry the mark of a click.\<close>

definition marked :: "(string \<times> jsstring) list \<Rightarrow> bool" where
  "marked a = (case map_of a ''data-_clicked-summary'' of None \<Rightarrow> False | Some v \<Rightarrow> v \<noteq> [])"

text \<open>No element was clicked twice, and every clicked element carries the mark.\<close>

definition clicks_marked :: "script \<Rightarrow> bool" where
  "clicks_marked s =
     (distinct (clicked s)
      \<and> (\<forall>x\<in>page_stamps (page s). fst x \<in> set (clicked s) \<longrightarrow> marked (snd x)))"

text \<open>Pieces of the example pages: a chord name and a chord diagram.\<close>

definition diagram :: "nat \<Rightarrow> node" where
  "diagram i =
     Element i ''svg'' [] []
       [Element (i + 1) ''use'' [] [(''href'', str ''/api/v2/diagrams/instruments/guitar'')] []]"

definition chord_name :: "nat \<Rightarrow> jsstring \<Rightarrow> node" where
  "chord_name i s = Element i ''span'' [''cbg1qdk''] [] [Text s]"

text \<open>
  What \<open>purge\<close> does on the tree made of an element and its subtree: the spans
  it visits are the element itself, when it is a \<open>span.cbg1qdk\<close>, and those below it.
\<close>

definition purge_subtree :: "host \<Rightarrow> jsstring list \<Rightarrow> nat \<Rightarrow> dom \<Rightarrow> dom" where
  "purge_subtree h blocked node d =
     (case entry_of d node of
        None \<Rightarrow> d
      | Some e \<Rightarrow>
          fold (purge_step h blocked)
            (map eid (filter (\<lambda>e. is_span_cbg1qdk (snd e)) (e # descendants e))) d)"

text \<open>
  A chord name A (element 1) that is not inside any \<open>div\<close> and holds a whole chord
  block of the same name (elements 2 to 5).
\<close>

definition page_span_in_span :: dom where
  "page_span_in_span =
     parsed
       [Element 0 ''body'' [] []
         [Element 1 ''span'' [''cbg1qdk''] []
           [Element 2 ''div'' [''deu1fhf''] [] [chord_name 3 [65], diagram 4]]]]"

text \<open>
  For the proofs about removals: an entry as it is after a cut, and the entries a
  cut leaves in the tree (no element of their chain is cut away).
\<close>

definition prune_entry :: "nat set \<Rightarrow> entry \<Rightarrow> entry" where
  "prune_entry R e = (map (prune R) (fst e), prune R (snd e))"

definition clear :: "nat set \<Rightarrow> entry \<Rightarrow> bool" where
  "clear R e = (\<forall>m\<in>set (snd e # fst e). \<not> is_elem R m)"

text \<open>
  No \<open>div\<close> lies inside a chord name: the removal of a block then never changes
  the text of a chord name that stays.
\<close>

definition no_div_in_chord_name :: "dom \<Rightarrow> bool" where
  "no_div_in_chord_name d =
     list_all (\<lambda>e. is_div (snd e) \<longrightarrow> \<not> list_ex is_span_cbg1qdk (fst e)) (doc_entries d)"

text \<open>
  \<open>purge\<close> has nothing to do for a span: its text is not blocked, or it has no
  container, or the container is not a chord block.
\<close>

definition settled_at :: "host \<Rightarrow> jsstring list \<Rightarrow> entry \<Rightarrow> bool" where
  "settled_at h blocked e =
     (\<not> isTargetSpan h blocked (snd e)
      \<or> (case chordContainerFor e of None \<Rightarrow> True | Some c \<Rightarrow> \<not> isChordBlock c))"

text \<open>
  The invariant of the loop of \<open>purge\<close>: \<open>S\<close> are the spans of the NodeList,
  \<open>D\<close> those already visited.
\<close>

definition purge_inv :: "host \<Rightarrow> jsstring list \<Rightarrow> nat set \<Rightarrow> nat set \<Rightarrow> dom \<Rightarrow> bool" where
  "purge_inv h blocked S D d =
     (wf_dom d \<and> no_div_in_chord_name d
      \<and> (\<forall>e\<in>set (doc_entries d). is_span_cbg1qdk (snd e) \<longrightarrow>
            eid e \<in> S \<and> (eid e \<in> D \<longrightarrow> settled_at h blocked e)))"

text \<open>Example pages built from chord blocks.\<close>

definition chord_block :: "nat \<Rightarrow> jsstring \<Rightarrow> node" where
  "chord_block i s = Element i ''div'' [''deu1fhf''] [] [chord_name (i + 1) s, diagram (i + 2)]"

text \<open>Three chord blocks in one list: D7, C and A7.\<close>

definition page_chords :: dom where
  "page_chords =
     parsed
       [Element 0 ''body'' [] []
         [Element 1 ''div'' [] []
           [chord_block 10 [68, 55], chord_block 20 [67], chord_block 30 [65, 55]]]]"

text \<open>
  A chord block whose name span (element 4) holds the text A and, after it, a
  second chord block, B.
\<close>

definition page_block_in_name :: dom where
  "page_block_in_name =
     parsed
       [Element 0 ''body'' [] []
         [Element 1 ''div'' [''deu1fhf''] []
           [diagram 2,
            Element 4 ''span'' [''cbg1qdk''] [] [Text [65], chord_block 5 [66]]]]]"

text \<open>
  What the claim about \<open>purge\<close> speaks of, read on the page as it is before
  \<open>purge\<close> runs: the chord names whose text is blocked, and the containers of
  such names that pass the guard.
\<close>

definition blocked_names :: "host \<Rightarrow> jsstring list \<Rightarrow> dom \<Rightarrow> entry list" where
  "blocked_names h blocked d =
     filter (\<lambda>e. is_span_cbg1qdk (snd e) \<and> isTargetSpan h blocked (snd e)) (doc_entries d)"

definition target_containers :: "host \<Rightarrow> jsstring list \<Rightarrow> dom \<Rightarrow> entry list" where
  "target_containers h blocked d =
     filter isChordBlock (List.map_filter chordContainerFor (blocked_names h blocked d))"

text \<open>
  No container that is to be removed lies strictly inside the container of a
  blocked chord name.
\<close>

definition blocks_apart :: "host \<Rightarrow> jsstring list \<Rightarrow> dom \<Rightarrow> bool" where
  "blocks_apart h blocked d =
     list_all (\<lambda>c. list_all (\<lambda>x. eid x \<notin> eid ` set (target_containers h blocked d))
                      (descendants c))
       (List.map_filter chordContainerFor (blocked_names h blocked d))"

text \<open>For the proofs: the containers to be removed for the spans \<open>ss\<close>.\<close>

definition removed_for :: "host \<Rightarrow> jsstring list \<Rightarrow> dom \<Rightarrow> nat list \<Rightarrow> nat set" where
  "removed_for h blocked d ss =
     {eid c | e c. e \<in> set (blocked_names h blocked d) \<and> eid e \<in> set ss
                  \<and> chordContainerFor e = Some c \<and> isChordBlock c}"

text \<open>
  A chord block (element 1) whose only diagram belongs to a chord block inside it
  (element 10, a B); the name of the outer block is A.
\<close>

definition page_nested_blocks :: dom where
  "page_nested_blocks =
     parsed
       [Element 0 ''body'' [] []
         [Element 1 ''div'' [''deu1fhf''] [] [chord_block 10 [66], chord_name 2 [65]]]]"

text \<open>
  An element of the page as the claim about sorting counts it: its identity, the
  identity of its parent element (none for a child of the document), its name, classes
  and attributes.
\<close>

type_synonym placed = "nat \<times> nat option \<times> string \<times> string list \<times> (string \<times> jsstring) list"

definition placed :: "entry \<Rightarrow> placed" where
  "placed e = (eid e, parentElement e, tagName (snd e), classList (snd e), attributes (snd e))"

text \<open>
  For the proofs about moves: the children of the element \<open>p\<close> put in another
  order, and the order in which \<open>appendChild\<close> leaves them.
\<close>

fun rearrange :: "nat \<Rightarrow> (node list \<Rightarrow> node list) \<Rightarrow> node \<Rightarrow> node" where
  "rearrange p f (Text s) = Text s"
| "rearrange p f (Element i t c a ks) =
     Element i t c a (if i = p then f ks else map (rearrange p f) ks)"

definition to_end :: "nat \<Rightarrow> node list \<Rightarrow> node list" where
  "to_end el ks = filter (\<lambda>k. \<not> is_elem {el} k) ks @ filter (is_elem {el}) ks"

definition rearranged :: "nat \<Rightarrow> (node list \<Rightarrow> node list) \<Rightarrow> dom \<Rightarrow> dom" where
  "rearranged p f d =
     d\<lparr>document := map (rearrange p f) (document d),
       detached := map (rearrange p f) (detached d)\<rparr>"

definition ids :: "node \<Rightarrow> nat list" where
  "ids n = map nid (elems n)"

fun node_placed :: "nat option \<Rightarrow> node \<Rightarrow> placed list" where
  "node_placed par (Text s) = []"
| "node_placed par (Element i t c a ks) =
     (i, par, t, c, a) # concat (map (node_placed (Some i)) ks)"

definition parent_id :: "node list \<Rightarrow> nat option" where
  "parent_id anc = (case anc of [] \<Rightarrow> None | q # rest \<Rightarrow> Some (nid q))"

definition same_elements :: "dom \<Rightarrow> dom \<Rightarrow> bool" where
  "same_elements d d' =
     (mset (map placed (doc_entries d')) = mset (map placed (doc_entries d))
      \<and> mset (map placed (all_entries d')) = mset (map placed (all_entries d)))"

definition child_of :: "dom \<Rightarrow> nat \<Rightarrow> nat \<Rightarrow> bool" where
  "child_of d p el = (\<exists>e\<in>set (all_entries d). eid e = el \<and> parentElement e = Some p)"

text \<open>
  The page as the script expects to find it: no element carries the mark
  \<open>data-_clicked-summary\<close>, which is the script's own.
\<close>

definition unmarked :: "dom \<Rightarrow> bool" where
  "unmarked d = list_all (\<lambda>e. \<not> clickedSummary (snd e)) (all_entries d)"

text \<open>
  For the proofs: the interfaces are those of the page the script was loaded on,
  and an element that carries the mark was clicked, unless it has no \<open>click\<close>.
\<close>

definition marks_known :: "(nat \<Rightarrow> interface) \<Rightarrow> script \<Rightarrow> bool" where
  "marks_known f s =
     (interfaceOf (page s) = f
      \<and> (\<forall>x\<in>page_stamps (page s).
            marked (snd x) \<longrightarrow> fst x \<in> set (clicked s) \<or> \<not> has_click (f (fst x))))"

text \<open>
  The Diagrams view with an anchor labelled Summary inside an \<open>svg\<close> element
  (element 2, an SVG element) and, after it, a button of the same label.
\<close>

definition page_svg_summary :: dom where
  "page_svg_summary =
     parsed
       [Element 0 ''body'' [''view-diagrams''] []
         [Element 1 ''svg'' [] [] [Element 2 ''a'' [] [] [Text (str ''Summary'')]],
          Element 3 ''button'' [] [] [Text (str ''Summary'')]]]"

text \<open>
  The Diagrams view with two buttons labelled Summary, the first of which carries
  the mark when the script is loaded.
\<close>

definition page_premarked :: dom where
  "page_premarked =
     parsed
       [Element 0 ''body'' [''view-diagrams''] []
         [Element 1 ''button'' [] [(''data-_clicked-summary'', str ''1'')] [Text (str ''Summary'')],
          Element 2 ''button'' [] [] [Text (str ''Summary'')]]]"

text \<open>
  What the claim about the order of the blocks speaks of. The child elements of an
  element, as entries in the order of its child list; a chord block: a
  \<open>div.deu1fhf\<close> that passes the guard; the chord blocks among the children of an
  element; and the order the claim asks for: of two chord blocks below the same
  parent the earlier one does not compare greater than the later one, by the keys
  \<open>chordKey\<close> reads and the comparison of the host.
\<close>

definition is_element :: "node \<Rightarrow> bool" where
  "is_element n = (case n of Element i t c a ks \<Rightarrow> True | Text s \<Rightarrow> False)"

definition child_entries :: "entry \<Rightarrow> entry list" where
  "child_entries e =
     (case snd e of
        Element i t c a ks \<Rightarrow> map (\<lambda>k. (snd e # fst e, k)) (filter is_element ks)
      | Text s \<Rightarrow> [])"

definition is_block :: "entry \<Rightarrow> bool" where
  "is_block e = (is_div_deu1fhf (snd e) \<and> isChordBlock e)"

definition child_blocks :: "entry \<Rightarrow> entry list" where
  "child_blocks e = filter is_block (child_entries e)"

definition in_key_order :: "host \<Rightarrow> entry \<Rightarrow> bool" where
  "in_key_order h e =
     sorted_wrt (\<lambda>a b. localeCompare h (chordKey h a) (chordKey h b) \<le> 0) (child_blocks e)"

text \<open>No chord block lies inside another chord block.\<close>

definition blocks_flat :: "dom \<Rightarrow> bool" where
  "blocks_flat d = list_all (\<lambda>b. \<not> list_ex is_block (descendants b)) (chord_blocks d)"

text \<open>
  The comparison of the host orders the given keys: of two keys one does not
  compare greater than the other, and the comparison is transitive. The collation
  of a browser is such an order on all strings.
\<close>

definition consistent_on :: "host \<Rightarrow> jsstring list \<Rightarrow> bool" where
  "consistent_on h ks =
     list_all (\<lambda>x. list_all (\<lambda>y.
         (localeCompare h x y \<le> 0 \<or> localeCompare h y x \<le> 0)
         \<and> list_all (\<lambda>z. localeCompare h x y \<le> 0 \<and> localeCompare h y z \<le> 0
                           \<longrightarrow> localeCompare h x z \<le> 0) ks) ks) ks"

text \<open>
  For the proofs about the order: an entry as it is after the children of \<open>p\<close>
  were rearranged; the chord blocks of the document with their parents, and their
  keys; the same condition on the comparison, for a set of keys; what the groups
  of the Map \<open>byParent\<close> hold; and the list the Map holds for a key.
\<close>

definition rearrange_entry :: "nat \<Rightarrow> (node list \<Rightarrow> node list) \<Rightarrow> entry \<Rightarrow> entry" where
  "rearrange_entry p f e = (map (rearrange p f) (fst e), rearrange p f (snd e))"

definition block_places :: "dom \<Rightarrow> (nat \<times> nat option) set" where
  "block_places d = (\<lambda>b. (eid b, parentElement b)) ` set (chord_blocks d)"

definition block_keys :: "host \<Rightarrow> dom \<Rightarrow> jsstring set" where
  "block_keys h d = chordKey h ` set (chord_blocks d)"

definition keys_consistent :: "host \<Rightarrow> jsstring set \<Rightarrow> bool" where
  "keys_consistent h K =
     ((\<forall>x\<in>K. \<forall>y\<in>K. localeCompare h x y \<le> 0 \<or> localeCompare h y x \<le> 0)
      \<and> (\<forall>x\<in>K. \<forall>y\<in>K. \<forall>z\<in>K. localeCompare h x y \<le> 0 \<and> localeCompare h y z \<le> 0
             \<longrightarrow> localeCompare h x z \<le> 0))"

definition groups_ok :: "dom \<Rightarrow> (nat \<times> nat list) list \<Rightarrow> bool" where
  "groups_ok d gs =
     (distinct (map fst gs)
      \<and> (\<forall>g\<in>set gs. distinct (snd g) \<and> snd g \<noteq> []
             \<and> set (snd g) = {i. (i, Some (fst g)) \<in> block_places d}))"

definition group_of :: "(nat \<times> nat list) list \<Rightarrow> nat \<Rightarrow> nat list" where
  "group_of m q = concat (map snd (filter (\<lambda>g. fst g = q) m))"

text \<open>
  A list (element 1) of a chord block without a name of its own (element 10) that
  holds the chord blocks G and A, followed by the chord block E. The key of the
  outer block is the name of the first block inside it.
\<close>

definition page_blocks_in_block :: dom where
  "page_blocks_in_block =
     parsed
       [Element 0 ''body'' [] []
         [Element 1 ''div'' [] []
           [Element 10 ''div'' [''deu1fhf''] [] [chord_block 20 [71], chord_block 30 [65]],
            chord_block 40 [69]]]]"

section \<open>Properties\<close>

subsection \<open>Evaluating the examples\<close>

lemma str_summary: "str ''summary'' = [115, 117, 109, 109, 97, 114, 121]"
  by (simp add: str_def)

lemma str_Summary: "str ''Summary'' = [83, 117, 109, 109, 97, 114, 121]"
  by (simp add: str_def)

lemma str_path:
  "str ''/api/v2/diagrams/instruments/'' =
     [47, 97, 112, 105, 47, 118, 50, 47, 100, 105, 97, 103, 114, 97, 109, 115, 47,
      105, 110, 115, 116, 114, 117, 109, 101, 110, 116, 115, 47]"
  by (simp add: str_def)

lemma parsed_sel [simp]:
  "document (parsed ns) = ns" "detached (parsed ns) = []"
  "interfaceOf (parsed ns) = parsed_interface ns"
  by (simp_all add: parsed_def)

lemmas query_defs =
  querySelectorAll_def query_root_def doc_entries_def all_entries_def walks_def
  entry_of_def descendants_def eid_def parsed_def

lemmas selector_defs =
  is_span_cbg1qdk_def is_div_deu1fhf_def is_div_def hasClass_def getAttribute_def
  is_candidate_def is_svg_use_def str_path

subsection \<open>Selecting the Summary view\<close>

lemma matches_ignoreCase_iff:
  "65 \<le> toUpperASCII p \<Longrightarrow> toUpperASCII p \<le> 90 \<Longrightarrow>
   matches_ignoreCase p c \<longleftrightarrow> toUpperASCII c = toUpperASCII p"
  by (auto simp: matches_ignoreCase_def toUpperASCII_def split: if_splits)

lemma list_all2_matches:
  "(\<forall>p\<in>set ps. 65 \<le> toUpperASCII p \<and> toUpperASCII p \<le> 90) \<Longrightarrow>
   list_all2 matches_ignoreCase ps cs \<longleftrightarrow> map toUpperASCII cs = map toUpperASCII ps"
proof (induction ps arbitrary: cs)
  case Nil
  then show ?case by simp
next
  case (Cons p ps)
  then show ?case
    by (cases cs) (auto simp: matches_ignoreCase_iff)
qed

lemma test_summary_iff:
  "test_summary cs \<longleftrightarrow> map toUpperASCII cs = map toUpperASCII (str ''Summary'')"
proof -
  have "\<forall>p\<in>set (str ''summary''). 65 \<le> toUpperASCII p \<and> toUpperASCII p \<le> 90"
    by (simp add: str_summary toUpperASCII_def)
  then have "test_summary cs \<longleftrightarrow> map toUpperASCII cs = map toUpperASCII (str ''summary'')"
    unfolding test_summary_def by (rule list_all2_matches)
  also have "map toUpperASCII (str ''summary'') = map toUpperASCII (str ''Summary'')"
    by (simp add: str_summary str_Summary toUpperASCII_def)
  finally show ?thesis .
qed

subsection \<open>Pages without the elements the script looks for\<close>

lemma click_first_Nil: "click_first h [] s = s"
  by simp

text \<open>
  C6. Where no element matches the selector an operation queries, the operation
  leaves the page and the script's state as they are, and no exception is thrown:
  \<open>purge\<close> without a \<open>span.cbg1qdk\<close> below its root, \<open>sortChordBlocks\<close> without
  a \<open>div.deu1fhf\<close>, \<open>clickSummaryIfPresent\<close> without a candidate below its root
  or without an element of class \<open>view-diagrams\<close> in the document.
\<close>

theorem missing_selectors_are_noops:
  "(querySelectorAll (\<lambda>e. is_span_cbg1qdk (snd e)) d r = []
      \<longrightarrow> purge h blocked r d = d)
   \<and> (querySelectorAll (\<lambda>e. is_div_deu1fhf (snd e)) d Document = []
      \<longrightarrow> sortChordBlocks h d = Done d)
   \<and> (querySelectorAll (\<lambda>e. is_candidate (snd e)) (page s) r = []
       \<or> querySelectorAll (\<lambda>e. hasClass ''view-diagrams'' (snd e)) (page s) Document = []
      \<longrightarrow> clickSummaryIfPresent h r s = s)"
proof (intro conjI impI)
  assume "querySelectorAll (\<lambda>e. is_span_cbg1qdk (snd e)) d r = []"
  then show "purge h blocked r d = d"
    by (simp add: purge_def)
next
  assume "querySelectorAll (\<lambda>e. is_div_deu1fhf (snd e)) d Document = []"
  then have "chord_blocks d = []"
    by (simp add: chord_blocks_def querySelectorAll_def query_root_def)
  then show "sortChordBlocks h d = Done d"
    by (simp add: sortChordBlocks_def)
next
  assume "querySelectorAll (\<lambda>e. is_candidate (snd e)) (page s) r = []
       \<or> querySelectorAll (\<lambda>e. hasClass ''view-diagrams'' (snd e)) (page s) Document = []"
  then show "clickSummaryIfPresent h r s = s"
  proof
    assume "querySelectorAll (\<lambda>e. is_candidate (snd e)) (page s) r = []"
    then have "filter (\<lambda>e. is_candidate (snd e)) (query_root (page s) r) = []"
      by (simp add: querySelectorAll_def)
    then show ?thesis
      by (simp add: clickSummaryIfPresent_def)
  next
    assume "querySelectorAll (\<lambda>e. hasClass ''view-diagrams'' (snd e)) (page s) Document = []"
    then have "\<not> onDiagramsPage (page s)"
      by (simp add: querySelectorAll_def query_root_def onDiagramsPage_def list_ex_iff
          filter_empty_conv)
    then show ?thesis
      by (simp add: clickSummaryIfPresent_def)
  qed
qed

theorem missing_selectors_are_noops_witness:
  "querySelectorAll (\<lambda>e. is_span_cbg1qdk (snd e)) page_plain Document = []
   \<and> purge plain_host blockedChordsList Document page_plain = page_plain
   \<and> querySelectorAll (\<lambda>e. is_div_deu1fhf (snd e)) page_plain Document = []
   \<and> sortChordBlocks plain_host page_plain = Done page_plain
   \<and> querySelectorAll (\<lambda>e. is_candidate (snd e)) (page (init page_plain)) Document = []
   \<and> clickSummaryIfPresent plain_host Document (init page_plain) = init page_plain"
proof -
  have a: "querySelectorAll (\<lambda>e. is_span_cbg1qdk (snd e)) page_plain Document = []"
    by (simp add: page_plain_def query_defs selector_defs)
  have b: "querySelectorAll (\<lambda>e. is_div_deu1fhf (snd e)) page_plain Document = []"
    by (simp add: page_plain_def query_defs selector_defs)
  have c: "querySelectorAll (\<lambda>e. is_candidate (snd e)) (page (init page_plain)) Document = []"
    by (simp add: init_def page_plain_def query_defs selector_defs)
  show ?thesis
    using missing_selectors_are_noops
      [of page_plain Document plain_host blockedChordsList "init page_plain"]
    by (simp add: a b c)
qed

subsection \<open>The fields an operation leaves alone\<close>

lemma click_first_control: "same_control s (click_first h es s)"
  by (induction es) (simp_all add: same_control_def Let_def)

lemma clickSummary_control: "same_control s (clickSummaryIfPresent h r s)"
  using click_first_control [of s h] 
  by (simp add: clickSummaryIfPresent_def same_control_def)

lemma observe_node_control: "same_control (fst st) (fst (observe_node h added st))"
proof (cases "uncaught (fst st) = None \<and> added \<noteq> None")
  case True
  then obtain node where n: "added = Some node"
    by auto
  show ?thesis
    using True n
      clickSummary_control [of "fst st\<lparr>page := fst (observe_filter h (blockedChords (fst st)) node (page (fst st)))\<rparr>" h "Node node"]
    by (simp add: observe_node_def same_control_def Let_def)
next
  case False
  then show ?thesis
    by (auto simp: observe_node_def same_control_def)
qed

lemma observe_fold_control: "same_control (fst st) (fst (fold (observe_node h) ns st))"
proof (induction ns arbitrary: st)
  case Nil
  then show ?case by (simp add: same_control_def)
next
  case (Cons n ns)
  show ?case
    using Cons [of "observe_node h n st"] observe_node_control [of st h n]
    by (simp add: same_control_def)
qed

lemma queueSort_blocked: "blockedChords (queueSort s) = blockedChords s"
  by (simp add: queueSort_def)

lemma start_blocked: "blockedChords (start h s) = blockedChords s"
  using clickSummary_control [of "queueSort (s\<lparr>page := purge h (blockedChords s) Document (page s)\<rparr>)" h Document]
  by (simp add: start_def same_control_def queueSort_blocked)

lemma observer_blocked: "blockedChords (observer h ms s) = blockedChords s"
  using observe_fold_control [of "(s, False)" h "concat ms"]
  by (simp add: observer_def same_control_def queueSort_blocked Let_def)

lemma sort_timeout_blocked: "blockedChords (sort_timeout h s) = blockedChords s"
  by (simp add: sort_timeout_def Let_def split: outcome.split)

lemma tick_blocked: "blockedChords (tick h now s) = blockedChords s"
  using clickSummary_control [of "s\<lparr>lastTick := now\<rparr>" h Document]
  by (simp add: tick_def same_control_def queueSort_blocked Let_def)

lemma step_blocked: "blockedChords (step h ev s) = blockedChords s"
  by (cases ev)
     (simp_all add: step_def Let_def start_blocked observer_blocked sort_timeout_blocked
        tick_blocked)

lemma run_blocked: "blockedChords (run h evs s) = blockedChords s"
  unfolding run_def by (induction evs arbitrary: s) (simp_all add: step_blocked)

text \<open>
  C5. The exclusion set is static: it holds the 28 chord names of the list, all
  different, and after any sequence of the script's activations (start, observer
  callback, timeout, animation frame) it holds the same members; so it does after
  each single operation that has the script's state in reach.
\<close>

theorem blockedChords_static:
  "blockedChords (init d) = blockedChordsList
   \<and> length blockedChordsList = 28 \<and> distinct blockedChordsList
   \<and> blockedChords (run h evs (init d)) = blockedChordsList
   \<and> blockedChords (clickSummaryIfPresent h r s) = blockedChords s
   \<and> blockedChords (observer h ms s) = blockedChords s
   \<and> blockedChords (tick h now s) = blockedChords s
   \<and> blockedChords (sort_timeout h s) = blockedChords s
   \<and> blockedChords (start h s) = blockedChords s"
proof -
  have a: "blockedChords (init d) = blockedChordsList"
    by (simp add: init_def)
  have b: "length blockedChordsList = 28"
    by (simp add: blockedChordsList_def)
  have c: "distinct blockedChordsList"
    by (simp add: blockedChordsList_def)
  have e: "blockedChords (clickSummaryIfPresent h r s) = blockedChords s"
    using clickSummary_control [of s h r] by (simp add: same_control_def)
  show ?thesis
    using a b c e
    by (simp add: run_blocked observer_blocked tick_blocked sort_timeout_blocked start_blocked)
qed

theorem blockedChords_static_witness:
  "blockedChords (run plain_host [Start, Mutations [[Some 2, None]], Frame 2000, Timeout]
     (init page_toggles)) = blockedChordsList"
  using blockedChords_static
    [where d = page_toggles and h = plain_host
       and evs = "[Start, Mutations [[Some 2, None]], Frame 2000, Timeout]"]
  by simp

subsection \<open>Debounce\<close>

lemma queueSort_debounced: "debounced s \<Longrightarrow> debounced (queueSort s)"
  by (auto simp: debounced_def queueSort_def)

lemma same_control_debounced: "same_control s s' \<Longrightarrow> debounced s \<Longrightarrow> debounced s'"
  by (simp add: same_control_def debounced_def)

lemma uncaught_debounced: "debounced (s\<lparr>uncaught := x\<rparr>) = debounced s"
  by (simp add: debounced_def)

lemma start_debounced: "debounced s \<Longrightarrow> debounced (start h s)"
proof -
  assume d: "debounced s"
  have "debounced (queueSort (s\<lparr>page := purge h (blockedChords s) Document (page s)\<rparr>))"
    using d by (intro queueSort_debounced) (simp add: debounced_def)
  then show ?thesis
    using clickSummary_control same_control_debounced
    by (simp add: start_def) blast
qed

lemma observer_debounced: "debounced s \<Longrightarrow> debounced (observer h ms s)"
proof -
  assume d: "debounced s"
  have "debounced (fst (fold (observe_node h) (concat ms) (s, False)))"
    using observe_fold_control [of "(s, False)" h "concat ms"] d same_control_debounced
    by fastforce
  then show ?thesis
    by (simp add: observer_def Let_def queueSort_debounced)
qed

lemma sort_timeout_debounced: "debounced s \<Longrightarrow> timers s \<noteq> 0 \<Longrightarrow> debounced (sort_timeout h s)"
  by (auto simp: sort_timeout_def Let_def debounced_def split: outcome.split)

lemma tick_debounced: "debounced s \<Longrightarrow> debounced (tick h now s)"
proof -
  assume d: "debounced s"
  have "debounced (clickSummaryIfPresent h Document (s\<lparr>lastTick := now\<rparr>))"
    using clickSummary_control [of "s\<lparr>lastTick := now\<rparr>" h Document] d
    by (simp add: same_control_def debounced_def)
  then show ?thesis
    using d by (simp add: tick_def Let_def queueSort_debounced)
qed

lemma step_debounced: "debounced s \<Longrightarrow> debounced (step h ev s)"
  by (cases ev)
     (simp_all add: step_def Let_def uncaught_debounced start_debounced observer_debounced
        sort_timeout_debounced tick_debounced)

lemma run_debounced: "debounced s \<Longrightarrow> debounced (run h evs s)"
  unfolding run_def by (induction evs arbitrary: s) (simp_all add: step_debounced)

text \<open>
  C7. Sorting is debounced. After any sequence of activations at most one timeout
  is pending, and the flag is set exactly when one is. A call of \<open>queueSort\<close>
  with the flag set changes nothing: no further timeout is set. With the flag
  clear it sets the flag and one timeout. The timeout's callback clears the flag
  and takes its timeout off the pending ones.
\<close>

theorem sort_is_debounced:
  "timers (run h evs (init d)) \<le> 1
   \<and> (sortPending (run h evs (init d)) \<longleftrightarrow> timers (run h evs (init d)) = 1)
   \<and> (sortPending s \<longrightarrow> queueSort s = s)
   \<and> (\<not> sortPending s \<longrightarrow> sortPending (queueSort s) \<and> timers (queueSort s) = timers s + 1)
   \<and> \<not> sortPending (sort_timeout h s)
   \<and> timers (sort_timeout h s) = timers s - 1"
proof -
  have "debounced (init d)"
    by (simp add: debounced_def init_def)
  then have "debounced (run h evs (init d))"
    by (rule run_debounced)
  then show ?thesis
    by (simp add: debounced_def queueSort_def sort_timeout_def Let_def split: outcome.split)
qed

theorem sort_is_debounced_witness:
  "timers (run plain_host [Start, Frame 2000, Start, Mutations [[Some 2]]] (init page_toggles)) \<le> 1
   \<and> sortPending (queueSort (init page_plain))
   \<and> queueSort (queueSort (init page_plain)) = queueSort (init page_plain)
   \<and> \<not> sortPending (init page_plain)
   \<and> timers (queueSort (init page_plain)) = timers (init page_plain) + 1"
proof -
  have a: "sortPending (queueSort (init page_plain))"
    by (simp add: queueSort_def init_def)
  have b: "\<not> sortPending (init page_plain)"
    by (simp add: init_def)
  show ?thesis
    using sort_is_debounced
      [where h = plain_host and d = page_toggles and s = "queueSort (init page_plain)"
         and evs = "[Start, Frame 2000, Start, Mutations [[Some 2]]]"]
      sort_is_debounced [where s = "init page_plain"]
    by (simp add: a b)
qed

subsection \<open>Identities and attributes are kept by removals and moves\<close>

lemma walk_elems: "map snd (walk anc n) = elems n"
proof (induction n arbitrary: anc)
  case (Element i t c a ks)
  then show ?case
    by (simp add: map_concat comp_def cong: map_cong)
qed simp

lemma walks_elems: "map snd (walks anc ns) = forest_elems ns"
  by (simp add: walks_def forest_elems_def map_concat walk_elems comp_def)

lemma all_entries_elems: "map snd (all_entries d) = page_elems d"
  by (simp add: all_entries_def page_elems_def walks_elems)

lemma node_stamps_Element: "node_stamps (Element i t c a ks) = insert (i, a) (stamps ks)"
  by (simp add: stamps_def)

lemma stamps_mono: "n \<in> set ns \<Longrightarrow> node_stamps n \<subseteq> stamps ns"
  by (auto simp: stamps_def)

lemma stamps_append: "stamps (ms @ ns) = stamps ms \<union> stamps ns"
  by (auto simp: stamps_def)

lemma stamps_prune: "node_stamps (prune R n) \<subseteq> node_stamps n"
proof (induction n)
  case (Element i t c a ks)
  then show ?case by fastforce
qed simp

lemma stamps_cut: "stamps (cut R ns) \<subseteq> stamps ns"
  unfolding cut_def stamps_def using stamps_prune by fastforce

lemma stamps_graft: "node_stamps (graft p y n) \<subseteq> node_stamps n \<union> node_stamps y"
proof (induction n)
  case (Element i t c a ks)
  then show ?case by fastforce
qed simp

lemma stamps_map_graft: "stamps (map (graft p y) ns) \<subseteq> stamps ns \<union> node_stamps y"
  unfolding stamps_def using stamps_graft by fastforce

lemma elems_sub: "m \<in> set (elems n) \<Longrightarrow> node_stamps m \<subseteq> node_stamps n"
proof (induction n)
  case (Element i t c a ks)
  show ?case
  proof (cases "m = Element i t c a ks")
    case True
    then show ?thesis by simp
  next
    case False
    then obtain k where k: "k \<in> set ks" "m \<in> set (elems k)"
      using Element.prems by auto
    then have "node_stamps m \<subseteq> node_stamps k"
      using Element.IH by blast
    then show ?thesis
      using k(1) by auto
  qed
qed simp

lemma forest_elems_sub: "m \<in> set (forest_elems ns) \<Longrightarrow> node_stamps m \<subseteq> stamps ns"
  using elems_sub by (fastforce simp: forest_elems_def stamps_def)

lemma page_elems_sub: "m \<in> set (page_elems d) \<Longrightarrow> node_stamps m \<subseteq> page_stamps d"
  using forest_elems_sub by (fastforce simp: page_elems_def page_stamps_def)

lemma elems_is_Element: "m \<in> set (elems n) \<Longrightarrow> (nid m, attributes m) \<in> node_stamps m"
  by (induction n) auto

lemma entry_of_in: "entry_of d i = Some e \<Longrightarrow> snd e \<in> set (page_elems d)"
proof -
  assume "entry_of d i = Some e"
  then have "e \<in> set (all_entries d)"
    by (auto simp: entry_of_def find_Some_iff in_set_conv_nth)
  then show ?thesis
    unfolding all_entries_elems [symmetric] by force
qed

lemma entry_of_stamps: "entry_of d i = Some e \<Longrightarrow> node_stamps (snd e) \<subseteq> page_stamps d"
  by (rule page_elems_sub) (rule entry_of_in)

lemma remove_node_stamps: "page_stamps (remove_node i d) \<subseteq> page_stamps d"
proof (cases "entry_of d i")
  case None
  then show ?thesis by (simp add: remove_node_def)
next
  case (Some e)
  show ?thesis
    using entry_of_stamps [OF Some] stamps_cut [of "{i}" "document d"]
      stamps_cut [of "{i}" "detached d"]
    by (auto simp: remove_node_def Some page_stamps_def stamps_append stamps_def)
qed


lemma node_stamps_elems: "node_stamps n = (\<lambda>m. (nid m, attributes m)) ` set (elems n)"
  by (induction n) auto

lemma page_stamps_entries:
  "page_stamps d = (\<lambda>e. (eid e, attributes (snd e))) ` set (all_entries d)"
proof -
  have "page_stamps d = (\<lambda>m. (nid m, attributes m)) ` set (page_elems d)"
    by (auto simp: page_stamps_def stamps_def page_elems_def forest_elems_def node_stamps_elems)
  also have "\<dots> = (\<lambda>m. (nid m, attributes m)) ` snd ` set (all_entries d)"
    unfolding all_entries_elems [symmetric] by simp
  finally show ?thesis
    by (simp add: image_image eid_def)
qed

lemma fold_stamps:
  assumes "\<And>y d. page_stamps (f y d) \<subseteq> page_stamps d"
  shows "page_stamps (fold f ys d) \<subseteq> page_stamps d"
proof (induction ys arbitrary: d)
  case Nil
  then show ?case by simp
next
  case (Cons y ys)
  have "page_stamps (fold f ys (f y d)) \<subseteq> page_stamps (f y d)"
    by (rule Cons)
  then show ?case
    using assms [of y d] by auto
qed

lemma purge_span_stamps: "page_stamps (purge_span h b d span) \<subseteq> page_stamps d"
  by (simp add: purge_span_def remove_node_stamps split: option.split)

lemma purge_step_stamps: "page_stamps (purge_step h b i d) \<subseteq> page_stamps d"
  by (simp add: purge_step_def purge_span_stamps split: option.split)

lemma purge_stamps: "page_stamps (purge h b r d) \<subseteq> page_stamps d"
  unfolding purge_def by (rule fold_stamps) (rule purge_step_stamps)

lemma appendChild_stamps: "page_stamps (outcome_dom (appendChild p el d)) \<subseteq> page_stamps d"
proof (cases "entry_of d el")
  case None
  then show ?thesis
    by (simp add: appendChild_def outcome_dom_def split: option.split)
next
  case (Some ee)
  have "stamps (map (graft p (snd ee)) (cut {el} ns)) \<subseteq> stamps ns \<union> node_stamps (snd ee)" for ns
    using stamps_map_graft [of p "snd ee" "cut {el} ns"] stamps_cut [of "{el}" ns] by auto
  then have "stamps (map (graft p (snd ee)) (cut {el} ns)) \<subseteq> stamps ns \<union> page_stamps d" for ns
    using entry_of_stamps [OF Some] by blast
  then show ?thesis
    by (auto simp: appendChild_def outcome_dom_def Some page_stamps_def split: option.split)
qed

lemma append_all_stamps: "page_stamps (outcome_dom (append_all p els d)) \<subseteq> page_stamps d"
proof (induction els arbitrary: d)
  case Nil
  then show ?case by (simp add: outcome_dom_def)
next
  case (Cons el els)
  show ?case
  proof (cases "appendChild p el d")
    case (Done d')
    then show ?thesis
      using Cons [of d'] appendChild_stamps [of p el d] by (auto simp: outcome_dom_def)
  next
    case (Threw e d')
    then show ?thesis
      using appendChild_stamps [of p el d] by (simp add: outcome_dom_def)
  qed
qed

lemma sort_groups_stamps: "page_stamps (outcome_dom (sort_groups h gs d)) \<subseteq> page_stamps d"
proof (induction gs arbitrary: d)
  case Nil
  then show ?case by (simp add: outcome_dom_def)
next
  case (Cons g gs)
  obtain p l where g: "g = (p, l)" by (cases g)
  show ?case
  proof (cases "append_all p (sort_group h d l) d")
    case (Done d')
    then show ?thesis
      using Cons [of d'] append_all_stamps [of p "sort_group h d l" d]
      by (auto simp: outcome_dom_def g)
  next
    case (Threw e d')
    then show ?thesis
      using append_all_stamps [of p "sort_group h d l" d] by (simp add: outcome_dom_def g)
  qed
qed

lemma sortChordBlocks_stamps: "page_stamps (outcome_dom (sortChordBlocks h d)) \<subseteq> page_stamps d"
  using sort_groups_stamps [of h "group_blocks (chord_blocks d)" d]
  by (simp add: sortChordBlocks_def Let_def outcome_dom_def)

lemma observe_filter_stamps: "page_stamps (fst (observe_filter h b i d)) \<subseteq> page_stamps d"
  by (simp add: observe_filter_def remove_node_stamps purge_stamps split: option.split)

subsection \<open>Marking\<close>

lemma map_of_put_attribute: "map_of (put_attribute k v a) k = Some v"
  by (induction a) auto

lemma marked_put: "marked (put_attribute ''data-_clicked-summary'' (str ''1'') a)"
  by (simp add: marked_def map_of_put_attribute str_def)

lemma node_stamps_setAttribute:
  "node_stamps (setAttribute el k v n) =
     (\<lambda>y. (fst y, if fst y = el then put_attribute k v (snd y) else snd y)) ` node_stamps n"
  by (induction n) (auto simp: image_iff)

lemma page_stamps_mark:
  "page_stamps (mark_clicked el d) =
     (\<lambda>y. (fst y, if fst y = el then put_attribute ''data-_clicked-summary'' (str ''1'') (snd y)
                  else snd y)) ` page_stamps d"
  by (auto simp: page_stamps_def mark_clicked_def stamps_def node_stamps_setAttribute image_iff
       simp del: put_attribute.simps)

lemma clickedSummary_marked: "clickedSummary n = marked (attributes n)"
  by (simp add: clickedSummary_def marked_def getAttribute_def)

lemma click_first_marked:
  "clicks_marked s \<Longrightarrow> \<forall>e\<in>set es. (eid e, attributes (snd e)) \<in> page_stamps (page s)
   \<Longrightarrow> clicks_marked (click_first h es s)"
proof (induction es)
  case Nil
  then show ?case by simp
next
  case (Cons e es)
  let ?s' = "s\<lparr>page := mark_clicked (eid e) (page s), clicked := clicked s @ [eid e]\<rparr>"
  let ?t = "s\<lparr>page := mark_clicked (eid e) (page s), uncaught := Some TypeError\<rparr>"
  have c: "clicks_marked ?s'" if new: "\<not> clickedSummary (snd e)"
  proof -
    have "eid e \<notin> set (clicked s)"
      using Cons.prems new by (fastforce simp: clicks_marked_def clickedSummary_marked)
    then have "distinct (clicked ?s')"
      using Cons.prems(1) by (simp add: clicks_marked_def)
    moreover have "\<forall>y\<in>page_stamps (page ?s'). fst y \<in> set (clicked ?s') \<longrightarrow> marked (snd y)"
      using Cons.prems(1) marked_put
      by (auto simp: page_stamps_mark clicks_marked_def)
    ultimately show ?thesis
      by (simp add: clicks_marked_def)
  qed
  have t: "clicks_marked ?t"
  proof -
    have "\<forall>y\<in>page_stamps (page ?t). fst y \<in> set (clicked ?t) \<longrightarrow> marked (snd y)"
      using Cons.prems(1) marked_put
      by (auto simp: page_stamps_mark clicks_marked_def)
    then show ?thesis
      using Cons.prems(1) by (simp add: clicks_marked_def)
  qed
  have u: "clicks_marked (s\<lparr>uncaught := Some TypeError\<rparr>)"
    using Cons.prems(1) by (simp add: clicks_marked_def)
  show ?case
    using Cons c t u by (simp add: Let_def)
qed

lemma elems_Element: "m \<in> set (elems n) \<Longrightarrow> \<exists>i t c a ks. m = Element i t c a ks"
  by (induction n) auto

lemma child_stamps: "m \<in> set (elems n) \<Longrightarrow> stamps (childNodes m) \<subseteq> node_stamps m"
  using elems_Element [of m n] by (auto simp: stamps_def)

lemma walks_stamps: "e \<in> set (walks anc ns) \<Longrightarrow> (eid e, attributes (snd e)) \<in> stamps ns"
proof -
  assume "e \<in> set (walks anc ns)"
  then have "snd e \<in> set (forest_elems ns)"
    unfolding walks_elems [symmetric, of ns anc] by force
  then obtain n where n: "n \<in> set ns" "snd e \<in> set (elems n)"
    by (auto simp: forest_elems_def)
  then show ?thesis
    by (auto simp: stamps_def node_stamps_elems eid_def)
qed

lemma query_root_stamps:
  "e \<in> set (query_root d r) \<Longrightarrow> (eid e, attributes (snd e)) \<in> page_stamps d"
proof (cases r)
  case Document
  assume "e \<in> set (query_root d r)"
  then show ?thesis
    using Document walks_stamps [of e "[]" "document d"]
    by (simp add: query_root_def doc_entries_def page_stamps_def)
next
  case (Node i)
  assume e: "e \<in> set (query_root d r)"
  show ?thesis
  proof (cases "entry_of d i")
    case None
    then show ?thesis
      using e Node by (simp add: query_root_def)
  next
    case (Some e0)
    then have e0: "e \<in> set (descendants e0)"
      using e Node by (simp add: query_root_def)
    then obtain j t c a ks where n0: "snd e0 = Element j t c a ks"
      by (cases "snd e0") (auto simp: descendants_def)
    have "(eid e, attributes (snd e)) \<in> stamps ks"
      using e0 n0 walks_stamps by (simp add: descendants_def)
    then have "(eid e, attributes (snd e)) \<in> node_stamps (snd e0)"
      using n0 by (simp add: stamps_def)
    then show ?thesis
      using entry_of_stamps [OF Some] by blast
  qed
qed

subsection \<open>Every element is clicked at most once\<close>

lemma clicks_marked_page:
  "clicks_marked s \<Longrightarrow> page_stamps (page s') \<subseteq> page_stamps (page s)
   \<Longrightarrow> clicked s' = clicked s \<Longrightarrow> clicks_marked s'"
  by (auto simp: clicks_marked_def)

lemma clickSummary_marked:
  "clicks_marked s \<Longrightarrow> clicks_marked (clickSummaryIfPresent h r s)"
  using click_first_marked [of s "filter (\<lambda>e. is_candidate (snd e)) (query_root (page s) r)" h]
    query_root_stamps [of _ "page s" r]
  by (simp add: clickSummaryIfPresent_def)

lemma queueSort_marked: "clicks_marked s \<Longrightarrow> clicks_marked (queueSort s)"
  by (auto simp: queueSort_def clicks_marked_def)

lemma start_marked: "clicks_marked s \<Longrightarrow> clicks_marked (start h s)"
  unfolding start_def
  by (intro clickSummary_marked queueSort_marked, erule clicks_marked_page)
     (simp_all add: purge_stamps)

lemma observe_node_marked:
  "clicks_marked (fst st) \<Longrightarrow> clicks_marked (fst (observe_node h added st))"
proof (cases "uncaught (fst st) = None \<and> added \<noteq> None")
  case True
  assume a: "clicks_marked (fst st)"
  obtain node where n: "added = Some node"
    using True by auto
  let ?s = "fst st"
  have "clicks_marked (?s\<lparr>page := fst (observe_filter h (blockedChords ?s) node (page ?s))\<rparr>)"
    using a by (rule clicks_marked_page) (simp_all add: observe_filter_stamps)
  then show ?thesis
    using True n by (simp add: observe_node_def Let_def clickSummary_marked)
next
  case False
  assume "clicks_marked (fst st)"
  then show ?thesis
    using False by (auto simp: observe_node_def)
qed

lemma observe_fold_marked:
  "clicks_marked (fst st) \<Longrightarrow> clicks_marked (fst (fold (observe_node h) ns st))"
  by (induction ns arbitrary: st) (simp_all add: observe_node_marked)

lemma observer_marked: "clicks_marked s \<Longrightarrow> clicks_marked (observer h ms s)"
  using observe_fold_marked [of "(s, False)" h "concat ms"]
  by (simp add: observer_def Let_def queueSort_marked)

lemma sort_timeout_page:
  "page (sort_timeout h s) = outcome_dom (sortChordBlocks h (page s))"
  "clicked (sort_timeout h s) = clicked s"
  by (simp_all add: sort_timeout_def Let_def outcome_dom_def split: outcome.split)

lemma sort_timeout_marked: "clicks_marked s \<Longrightarrow> clicks_marked (sort_timeout h s)"
  by (erule clicks_marked_page) (simp_all add: sort_timeout_page sortChordBlocks_stamps)

lemma tick_marked: "clicks_marked s \<Longrightarrow> clicks_marked (tick h now s)"
proof -
  assume a: "clicks_marked s"
  then have "clicks_marked (s\<lparr>lastTick := now\<rparr>)"
    by (rule clicks_marked_page) simp_all
  then show ?thesis
    by (simp add: tick_def Let_def a queueSort_marked clickSummary_marked)
qed

lemma uncaught_marked: "clicks_marked (s\<lparr>uncaught := x\<rparr>) = clicks_marked s"
  by (simp add: clicks_marked_def)

lemma step_marked: "clicks_marked s \<Longrightarrow> clicks_marked (step h ev s)"
  by (cases ev)
     (simp_all add: step_def Let_def uncaught_marked start_marked observer_marked
        sort_timeout_marked tick_marked)

lemma run_marked: "clicks_marked s \<Longrightarrow> clicks_marked (run h evs s)"
  unfolding run_def by (induction evs arbitrary: s) (simp_all add: step_marked)

text \<open>
  C10. After any sequence of activations of the script, whatever roots
  \<open>clickSummaryIfPresent\<close> was called with, no element was clicked twice, and
  every element that was clicked carries the mark that keeps a later call from
  clicking it.
\<close>

theorem clicked_at_most_once:
  "distinct (clicked (run h evs (init d)))
   \<and> (\<forall>e\<in>set (all_entries (page (run h evs (init d)))).
         eid e \<in> set (clicked (run h evs (init d))) \<longrightarrow> clickedSummary (snd e))"
proof -
  have "clicks_marked (init d)"
    by (simp add: clicks_marked_def init_def)
  then have "clicks_marked (run h evs (init d))"
    by (rule run_marked)
  then show ?thesis
    by (auto simp: clicks_marked_def page_stamps_entries clickedSummary_marked)
qed

lemmas click_defs =
  clickSummaryIfPresent_def onDiagramsPage_def clickedSummary_def test_summary_def
  matches_ignoreCase_def toUpperASCII_def mark_clicked_def normalize_def trim_def
  isWhiteSpace_def plain_host_def str_def has_dataset_def has_click_def parsed_interface_def

lemma toggles_clicks:
  "clicked (run plain_host [Start, Frame 2000, Frame 4000] (init page_toggles)) = [2, 3]"
  by (simp add: run_def step_def start_def tick_def init_def queueSort_def purge_def Let_def
      page_toggles_def query_defs selector_defs click_defs)

theorem clicked_at_most_once_witness:
  "clicked (run plain_host [Start, Frame 2000, Frame 4000] (init page_toggles)) = [2, 3]
   \<and> distinct (clicked (run plain_host [Start, Frame 2000, Frame 4000] (init page_toggles)))"
  using clicked_at_most_once [of plain_host "[Start, Frame 2000, Frame 4000]" page_toggles]
    toggles_clicks
  by simp

subsection \<open>The interfaces of the elements never change\<close>

lemma remove_node_interface: "interfaceOf (remove_node i d) = interfaceOf d"
  by (simp add: remove_node_def split: option.split)

lemma purge_step_interface: "interfaceOf (purge_step h b i d) = interfaceOf d"
  by (simp add: purge_step_def purge_span_def remove_node_interface split: option.split)

lemma fold_interface:
  assumes "\<And>y d. interfaceOf (f y d) = interfaceOf d"
  shows "interfaceOf (fold f ys d) = interfaceOf d"
  by (induction ys arbitrary: d) (simp_all add: assms)

lemma purge_interface: "interfaceOf (purge h b r d) = interfaceOf d"
  unfolding purge_def by (rule fold_interface) (rule purge_step_interface)

lemma appendChild_interface: "interfaceOf (outcome_dom (appendChild p el d)) = interfaceOf d"
  by (simp add: appendChild_def outcome_dom_def split: option.split)

lemma append_all_interface: "interfaceOf (outcome_dom (append_all p els d)) = interfaceOf d"
proof (induction els arbitrary: d)
  case Nil
  then show ?case by (simp add: outcome_dom_def)
next
  case (Cons el els)
  show ?case
  proof (cases "appendChild p el d")
    case (Done d')
    then show ?thesis
      using Cons [of d'] appendChild_interface [of p el d] by (simp add: outcome_dom_def)
  next
    case (Threw e d')
    then show ?thesis
      using appendChild_interface [of p el d] by (simp add: outcome_dom_def)
  qed
qed

lemma sort_groups_interface: "interfaceOf (outcome_dom (sort_groups h gs d)) = interfaceOf d"
proof (induction gs arbitrary: d)
  case Nil
  then show ?case by (simp add: outcome_dom_def)
next
  case (Cons g gs)
  obtain p l where g: "g = (p, l)" by (cases g)
  show ?case
  proof (cases "append_all p (sort_group h d l) d")
    case (Done d')
    then show ?thesis
      using Cons [of d'] append_all_interface [of p "sort_group h d l" d]
      by (simp add: outcome_dom_def g)
  next
    case (Threw e d')
    then show ?thesis
      using append_all_interface [of p "sort_group h d l" d] by (simp add: outcome_dom_def g)
  qed
qed

lemma sortChordBlocks_interface:
  "interfaceOf (outcome_dom (sortChordBlocks h d)) = interfaceOf d"
  using sort_groups_interface [of h "group_blocks (chord_blocks d)" d]
  by (simp add: sortChordBlocks_def Let_def outcome_dom_def)

lemma observe_filter_interface: "interfaceOf (fst (observe_filter h b i d)) = interfaceOf d"
  by (simp add: observe_filter_def remove_node_interface purge_interface split: option.split)

lemma mark_clicked_interface: "interfaceOf (mark_clicked el d) = interfaceOf d"
  by (simp add: mark_clicked_def)

subsection \<open>A marked element that can be clicked was clicked\<close>

lemma marks_known_page:
  "marks_known f s \<Longrightarrow> page_stamps (page s') \<subseteq> page_stamps (page s)
   \<Longrightarrow> interfaceOf (page s') = interfaceOf (page s) \<Longrightarrow> clicked s' = clicked s
   \<Longrightarrow> marks_known f s'"
  by (auto simp: marks_known_def)

lemma click_first_known:
  "marks_known f s \<Longrightarrow> marks_known f (click_first h es s)"
proof (induction es)
  case Nil
  then show ?case by simp
next
  case (Cons e es)
  let ?s' = "s\<lparr>page := mark_clicked (eid e) (page s), clicked := clicked s @ [eid e]\<rparr>"
  let ?t = "s\<lparr>page := mark_clicked (eid e) (page s), uncaught := Some TypeError\<rparr>"
  have f: "interfaceOf (page s) = f"
    using Cons.prems by (simp add: marks_known_def)
  have c: "marks_known f ?s'"
    using Cons.prems
    by (auto simp: marks_known_def page_stamps_mark mark_clicked_interface)
  have t: "marks_known f ?t" if "\<not> has_click (interfaceOf (page s) (eid e))"
    using Cons.prems that
    by (auto simp: marks_known_def page_stamps_mark mark_clicked_interface)
  have u: "marks_known f (s\<lparr>uncaught := Some TypeError\<rparr>)"
    using Cons.prems by (simp add: marks_known_def)
  show ?case
    using Cons c t u by (simp add: Let_def)
qed

lemma clickSummary_known:
  "marks_known f s \<Longrightarrow> marks_known f (clickSummaryIfPresent h r s)"
  by (simp add: clickSummaryIfPresent_def click_first_known)

lemma queueSort_known: "marks_known f s \<Longrightarrow> marks_known f (queueSort s)"
  by (auto simp: queueSort_def marks_known_def)

lemma start_known: "marks_known f s \<Longrightarrow> marks_known f (start h s)"
  unfolding start_def
  by (intro clickSummary_known queueSort_known, erule marks_known_page)
     (simp_all add: purge_stamps purge_interface)

lemma observe_node_known:
  "marks_known f (fst st) \<Longrightarrow> marks_known f (fst (observe_node h added st))"
proof (cases "uncaught (fst st) = None \<and> added \<noteq> None")
  case True
  assume a: "marks_known f (fst st)"
  obtain node where n: "added = Some node"
    using True by auto
  let ?s = "fst st"
  have "marks_known f (?s\<lparr>page := fst (observe_filter h (blockedChords ?s) node (page ?s))\<rparr>)"
    using a
    by (rule marks_known_page) (simp_all add: observe_filter_stamps observe_filter_interface)
  then show ?thesis
    using True n by (simp add: observe_node_def Let_def clickSummary_known)
next
  case False
  assume "marks_known f (fst st)"
  then show ?thesis
    using False by (auto simp: observe_node_def)
qed

lemma observe_fold_known:
  "marks_known f (fst st) \<Longrightarrow> marks_known f (fst (fold (observe_node h) ns st))"
  by (induction ns arbitrary: st) (simp_all add: observe_node_known)

lemma observer_known: "marks_known f s \<Longrightarrow> marks_known f (observer h ms s)"
  using observe_fold_known [of f "(s, False)" h "concat ms"]
  by (simp add: observer_def Let_def queueSort_known)

lemma sort_timeout_known: "marks_known f s \<Longrightarrow> marks_known f (sort_timeout h s)"
  by (erule marks_known_page)
     (simp_all add: sort_timeout_page sortChordBlocks_stamps sortChordBlocks_interface)

lemma tick_known: "marks_known f s \<Longrightarrow> marks_known f (tick h now s)"
proof -
  assume a: "marks_known f s"
  then have "marks_known f (s\<lparr>lastTick := now\<rparr>)"
    by (rule marks_known_page) simp_all
  then show ?thesis
    by (simp add: tick_def Let_def a queueSort_known clickSummary_known)
qed

lemma uncaught_known: "marks_known f (s\<lparr>uncaught := x\<rparr>) = marks_known f s"
  by (simp add: marks_known_def)

lemma step_known: "marks_known f s \<Longrightarrow> marks_known f (step h ev s)"
  by (cases ev)
     (simp_all add: step_def Let_def uncaught_known start_known observer_known
        sort_timeout_known tick_known)

lemma run_known: "marks_known f s \<Longrightarrow> marks_known f (run h evs s)"
  unfolding run_def by (induction evs arbitrary: s) (simp_all add: step_known)

lemma init_known: "unmarked d \<Longrightarrow> marks_known (interfaceOf d) (init d)"
  by (auto simp: unmarked_def marks_known_def init_def page_stamps_entries list_all_iff
      clickedSummary_marked)

subsection \<open>Which element is clicked\<close>

lemma summary_label_text: "summary_label h n \<Longrightarrow> normalize h (textContent n) \<noteq> []"
  by (auto simp: summary_label_def str_Summary)

lemma click_first_unclicked:
  assumes "\<forall>e\<in>set es. summary_label h (snd e) \<longrightarrow>
             interfaceOf (page s) (eid e) = HTMLElement
             \<and> (clickedSummary (snd e) \<longleftrightarrow> eid e \<in> set (clicked s))"
  shows "click_first h es s =
     (case find (\<lambda>e. summary_label h (snd e) \<and> eid e \<notin> set (clicked s)) es of
        None \<Rightarrow> s
      | Some e \<Rightarrow> s\<lparr>page := mark_clicked (eid e) (page s), clicked := clicked s @ [eid e]\<rparr>)"
  using assms
proof (induction es)
  case Nil
  then show ?case by simp
next
  case (Cons e es)
  show ?case
  proof (cases "summary_label h (snd e)")
    case True
    then have "test_summary (normalize h (textContent (snd e)))"
      by (simp add: test_summary_iff summary_label_def)
    then show ?thesis
      using Cons True summary_label_text [OF True]
      by (simp add: Let_def has_dataset_def has_click_def)
  next
    case False
    then have "\<not> test_summary (normalize h (textContent (snd e)))"
      by (simp add: test_summary_iff summary_label_def)
    then show ?thesis
      using Cons False by (simp add: Let_def)
  qed
qed

text \<open>
  C4, as the script has it. Let the script be loaded on a page on which no element
  carries the mark \<open>data-_clicked-summary\<close>, and let it have run through any
  sequence of activations. If the candidates below the root (buttons,
  \<open>role=button\<close> elements and anchors) whose trimmed and normalised text is
  Summary, in any case of the letters, are HTML elements, then
  \<open>clickSummaryIfPresent\<close> does nothing when the document has no element of
  class \<open>view-diagrams\<close>, and otherwise clicks at most one element: the first such
  candidate in document order that was not clicked before. It marks the element it
  clicks, changes nothing else, and throws no exception.
\<close>

theorem clickSummary_clicks_first_unclicked:
  assumes "unmarked d"
    and "\<forall>e\<in>set (filter (\<lambda>e. is_candidate (snd e)) (query_root (page (run h evs (init d))) r)).
           summary_label h (snd e) \<longrightarrow> interfaceOf d (eid e) = HTMLElement"
  shows "clickSummaryIfPresent h r (run h evs (init d)) =
     (let s = run h evs (init d)
      in if onDiagramsPage (page s)
         then (case find (\<lambda>e. summary_label h (snd e) \<and> eid e \<notin> set (clicked s))
                      (filter (\<lambda>e. is_candidate (snd e)) (query_root (page s) r)) of
                 None \<Rightarrow> s
               | Some e \<Rightarrow> s\<lparr>page := mark_clicked (eid e) (page s),
                               clicked := clicked s @ [eid e]\<rparr>)
         else s)"
proof -
  let ?s = "run h evs (init d)"
  let ?es = "filter (\<lambda>e. is_candidate (snd e)) (query_root (page ?s) r)"
  have "clicks_marked (init d)"
    by (simp add: clicks_marked_def init_def)
  then have cm: "clicks_marked ?s"
    by (rule run_marked)
  have mk: "marks_known (interfaceOf d) ?s"
    using init_known [OF assms(1)] by (rule run_known)
  then have f: "interfaceOf (page ?s) = interfaceOf d"
    by (simp add: marks_known_def)
  have "interfaceOf (page ?s) (eid e) = HTMLElement
        \<and> (clickedSummary (snd e) \<longleftrightarrow> eid e \<in> set (clicked ?s))"
    if e: "e \<in> set ?es" and l: "summary_label h (snd e)" for e
  proof -
    have i: "interfaceOf d (eid e) = HTMLElement"
      using assms(2) e l by blast
    have st: "(eid e, attributes (snd e)) \<in> page_stamps (page ?s)"
      using e query_root_stamps [of e "page ?s" r] by simp
    have "clickedSummary (snd e) \<Longrightarrow> eid e \<in> set (clicked ?s)"
      using mk st i by (fastforce simp: marks_known_def clickedSummary_marked has_click_def)
    moreover have "eid e \<in> set (clicked ?s) \<Longrightarrow> clickedSummary (snd e)"
      using cm st by (fastforce simp: clicks_marked_def clickedSummary_marked)
    ultimately show ?thesis
      using i f by auto
  qed
  then have "click_first h ?es ?s =
     (case find (\<lambda>e. summary_label h (snd e) \<and> eid e \<notin> set (clicked ?s)) ?es of
        None \<Rightarrow> ?s
      | Some e \<Rightarrow> ?s\<lparr>page := mark_clicked (eid e) (page ?s), clicked := clicked ?s @ [eid e]\<rparr>)"
    by (intro click_first_unclicked) blast
  then show ?thesis
    by (simp add: clickSummaryIfPresent_def Let_def)
qed

text \<open>
  After \<open>start\<close> on \<open>page_toggles\<close> the first button labelled Summary (element
  2) is clicked and marked.
\<close>

lemma toggles_started:
  "run plain_host [Start] (init page_toggles) =
     \<lparr>page = page_toggles\<lparr>document :=
        [Element 0 ''body'' [''view-diagrams''] []
          [Element 1 ''a'' [] [] [Text (str ''Animated'')],
           Element 2 ''button'' [] [(''data-_clicked-summary'', str ''1'')]
             [Text (str '' Summary '')],
           Element 3 ''button'' [] [] [Text (str ''summary'')]]]\<rparr>,
      clicked = [2], sortPending = True, timers = 1, lastTick = 0,
      blockedChords = blockedChordsList, uncaught = None\<rparr>"
  by (simp add: run_def step_def start_def init_def queueSort_def purge_def Let_def
      page_toggles_def query_defs selector_defs click_defs)

theorem clickSummary_clicks_first_unclicked_witness:
  "unmarked page_toggles
   \<and> onDiagramsPage (page (run plain_host [Start] (init page_toggles)))
   \<and> clicked (run plain_host [Start] (init page_toggles)) = [2]
   \<and> clicked (clickSummaryIfPresent plain_host Document
        (run plain_host [Start] (init page_toggles))) = [2, 3]
   \<and> uncaught (clickSummaryIfPresent plain_host Document
        (run plain_host [Start] (init page_toggles))) = None"
proof -
  let ?s = "run plain_host [Start] (init page_toggles)"
  let ?es = "filter (\<lambda>e. is_candidate (snd e)) (query_root (page ?s) Document)"
  have a: "unmarked page_toggles"
    by (simp add: unmarked_def page_toggles_def query_defs selector_defs clickedSummary_def)
  have d: "onDiagramsPage (page ?s)"
    unfolding toggles_started
    by (simp add: onDiagramsPage_def page_toggles_def query_defs selector_defs)
  have es: "map eid ?es = [1, 2, 3]"
    unfolding toggles_started
    by (simp add: page_toggles_def query_defs selector_defs)
  have b: "\<forall>e\<in>set ?es. summary_label plain_host (snd e)
             \<longrightarrow> interfaceOf page_toggles (eid e) = HTMLElement"
  proof
    fix e
    assume "e \<in> set ?es"
    then have "eid e \<in> set (map eid ?es)"
      by (simp del: set_filter)
    then have "eid e \<in> {1, 2, 3}"
      unfolding es by simp
    moreover have "interfaceOf page_toggles i = HTMLElement" for i
      by (simp add: page_toggles_def parsed_interface_def query_defs find_None_iff
          split: option.split)
    ultimately show "summary_label plain_host (snd e)
             \<longrightarrow> interfaceOf page_toggles (eid e) = HTMLElement"
      by simp
  qed
  have f: "find (\<lambda>e. summary_label plain_host (snd e) \<and> eid e \<notin> set (clicked ?s)) ?es
           = Some ([Element 0 ''body'' [''view-diagrams''] []
                     [Element 1 ''a'' [] [] [Text (str ''Animated'')],
                      Element 2 ''button'' [] [(''data-_clicked-summary'', str ''1'')]
                        [Text (str '' Summary '')],
                      Element 3 ''button'' [] [] [Text (str ''summary'')]]],
                   Element 3 ''button'' [] [] [Text (str ''summary'')])"
    unfolding toggles_started
    by (simp add: page_toggles_def query_defs selector_defs summary_label_def
        plain_host_def normalize_def trim_def isWhiteSpace_def toUpperASCII_def str_def)
  have c: "clicked ?s = [2]"
    unfolding toggles_started by simp
  have "clickSummaryIfPresent plain_host Document ?s =
          ?s\<lparr>page := mark_clicked 3 (page ?s), clicked := clicked ?s @ [3]\<rparr>"
    using clickSummary_clicks_first_unclicked [OF a b, unfolded Let_def f] d
    by (simp add: eid_def)
  moreover have "uncaught ?s = None"
    unfolding toggles_started by simp
  ultimately show ?thesis
    using a d c by simp
qed

text \<open>
  C4 as stated fails on two pages. On \<open>page_svg_summary\<close> the first candidate
  labelled Summary is an SVG anchor: the script marks it, \<open>click()\<close> is not a
  function of it, and the call ends with a TypeError and no click, the button after
  it included. On \<open>page_premarked\<close> the first button labelled Summary was never
  clicked and carries the mark: the script passes it over and clicks the second.
\<close>

theorem clickSummary_misses_first_Summary:
  "clicked (clickSummaryIfPresent plain_host Document (init page_svg_summary))
     \<noteq> clicked (init page_svg_summary) @
         (if onDiagramsPage (page (init page_svg_summary))
          then (case find (\<lambda>e. summary_label plain_host (snd e)
                               \<and> eid e \<notin> set (clicked (init page_svg_summary)))
                       (filter (\<lambda>e. is_candidate (snd e))
                          (query_root (page (init page_svg_summary)) Document)) of
                  None \<Rightarrow> [] | Some e \<Rightarrow> [eid e])
          else [])
   \<and> clicked (clickSummaryIfPresent plain_host Document (init page_svg_summary)) = []
   \<and> uncaught (clickSummaryIfPresent plain_host Document (init page_svg_summary))
       = Some TypeError
   \<and> clicked (clickSummaryIfPresent plain_host Document (init page_premarked))
     \<noteq> clicked (init page_premarked) @
         (if onDiagramsPage (page (init page_premarked))
          then (case find (\<lambda>e. summary_label plain_host (snd e)
                               \<and> eid e \<notin> set (clicked (init page_premarked)))
                       (filter (\<lambda>e. is_candidate (snd e))
                          (query_root (page (init page_premarked)) Document)) of
                  None \<Rightarrow> [] | Some e \<Rightarrow> [eid e])
          else [])
   \<and> clicked (clickSummaryIfPresent plain_host Document (init page_premarked)) = [2]"
proof -
  have a: "clicked (clickSummaryIfPresent plain_host Document (init page_svg_summary)) = []"
    and b: "uncaught (clickSummaryIfPresent plain_host Document (init page_svg_summary))
       = Some TypeError"
    by (simp_all add: init_def page_svg_summary_def query_defs selector_defs click_defs Let_def)
  have c: "clicked (clickSummaryIfPresent plain_host Document (init page_premarked)) = [2]"
    by (simp add: init_def page_premarked_def query_defs selector_defs click_defs Let_def)
  have d: "onDiagramsPage (page (init page_svg_summary))"
    "onDiagramsPage (page (init page_premarked))"
    by (simp_all add: init_def onDiagramsPage_def page_svg_summary_def page_premarked_def
        query_defs selector_defs)
  have e: "map eid (filter (\<lambda>e. summary_label plain_host (snd e)
                \<and> eid e \<notin> set (clicked (init page_svg_summary)))
             (filter (\<lambda>e. is_candidate (snd e))
                (query_root (page (init page_svg_summary)) Document))) = [2, 3]"
    by (simp add: init_def page_svg_summary_def query_defs selector_defs summary_label_def
        plain_host_def normalize_def trim_def isWhiteSpace_def toUpperASCII_def str_def)
  have f: "map eid (filter (\<lambda>e. summary_label plain_host (snd e)
                \<and> eid e \<notin> set (clicked (init page_premarked)))
             (filter (\<lambda>e. is_candidate (snd e))
                (query_root (page (init page_premarked)) Document))) = [1, 2]"
    by (simp add: init_def page_premarked_def query_defs selector_defs summary_label_def
        plain_host_def normalize_def trim_def isWhiteSpace_def toUpperASCII_def str_def)
  have g: "(case find P xs of None \<Rightarrow> [] | Some e \<Rightarrow> [eid e]) = take 1 (map eid (filter P xs))"
    for P :: "entry \<Rightarrow> bool" and xs
    by (induction xs) simp_all
  show ?thesis
    unfolding g e f a b c using d by (simp add: init_def)
qed

subsection \<open>The observer's filter on an added chord name\<close>

lemma str_guitar:
  "str ''/api/v2/diagrams/instruments/guitar'' =
     [47, 97, 112, 105, 47, 118, 50, 47, 100, 105, 97, 103, 114, 97, 109, 115, 47,
      105, 110, 115, 116, 114, 117, 109, 101, 110, 116, 115, 47, 103, 117, 105, 116, 97, 114]"
  by (simp add: str_def)

lemmas purge_defs =
  purge_def purge_step_def purge_span_def isTargetSpan_def normalize_def trim_def
  isWhiteSpace_def blockedChordsList_def chordContainerFor_def closest_def isChordBlock_def
  remove_node_def root_ids_def cut_def is_elem_def plain_host_def str_guitar
  diagram_def chord_name_def

text \<open>
  C8. On \<open>page_span_in_span\<close> with element 1 as the added node, the callback takes
  the branch for a directly added chord name, finds no container and removes
  nothing. It never looks at the chord name inside (element 3), whose block
  (element 2) \<open>purge\<close> removes, be it run on the subtree of the added node or on
  the document.
\<close>

theorem observer_skips_spans_below_blocked_span:
  "observe_filter plain_host blockedChordsList 1 page_span_in_span
     = (page_span_in_span, False)
   \<and> document (purge_subtree plain_host blockedChordsList 1 page_span_in_span)
     = [Element 0 ''body'' [] [] [Element 1 ''span'' [''cbg1qdk''] [] []]]
   \<and> document (purge plain_host blockedChordsList Document page_span_in_span)
     = [Element 0 ''body'' [] [] [Element 1 ''span'' [''cbg1qdk''] [] []]]"
proof -
  have a: "observe_filter plain_host blockedChordsList 1 page_span_in_span
             = (page_span_in_span, False)"
    by (simp add: observe_filter_def page_span_in_span_def query_defs selector_defs purge_defs)
  have b: "document (purge_subtree plain_host blockedChordsList 1 page_span_in_span)
             = [Element 0 ''body'' [] [] [Element 1 ''span'' [''cbg1qdk''] [] []]]"
    by (simp add: purge_subtree_def page_span_in_span_def query_defs selector_defs purge_defs)
  have c: "document (purge plain_host blockedChordsList Document page_span_in_span)
             = [Element 0 ''body'' [] [] [Element 1 ''span'' [''cbg1qdk''] [] []]]"
    by (simp add: page_span_in_span_def query_defs selector_defs purge_defs)
  show ?thesis
    using a b c by simp
qed

subsection \<open>Entries after a cut\<close>

lemma prune_sel [simp]:
  "nid (prune R n) = nid n" "tagName (prune R n) = tagName n"
  "classList (prune R n) = classList n" "attributes (prune R n) = attributes n"
  by (cases n; simp)+

lemma is_elem_prune [simp]: "is_elem R' (prune R n) = is_elem R' n"
  by (cases n) (simp_all add: is_elem_def)

lemma walk_chain: "e \<in> set (walk anc n) \<Longrightarrow> n \<in> set (snd e # fst e) \<and> set anc \<subseteq> set (fst e)"
proof (induction n arbitrary: anc)
  case (Element i t c a ks)
  then show ?case by fastforce
qed simp

lemma walk_blocked:
  "is_elem R n \<Longrightarrow> filter (clear R) (walk anc n) = []"
  using walk_chain [of _ anc n] by (auto simp: filter_empty_conv clear_def)

lemma walks_prune_kids:
  assumes "\<And>k. k \<in> set ks \<Longrightarrow> \<not> is_elem R k \<Longrightarrow>
             walk (map (prune R) ch) (prune R k) = map (prune_entry R) (filter (clear R) (walk ch k))"
  shows "walks (map (prune R) ch) (cut R ks) = map (prune_entry R) (filter (clear R) (walks ch ks))"
  using assms
proof (induction ks)
  case Nil
  then show ?case by (simp add: walks_def cut_def)
next
  case (Cons k ks)
  have rest: "walks (map (prune R) ch) (cut R ks) = map (prune_entry R) (filter (clear R) (walks ch ks))"
    using Cons by simp
  show ?case
  proof (cases "is_elem R k")
    case True
    then show ?thesis
      using rest by (simp add: walks_def cut_def walk_blocked)
  next
    case False
    then show ?thesis
      using rest Cons.prems [of k] by (simp add: walks_def cut_def)
  qed
qed

lemma walk_prune:
  "\<forall>m\<in>set anc. \<not> is_elem R m \<Longrightarrow> \<not> is_elem R n \<Longrightarrow>
   walk (map (prune R) anc) (prune R n) = map (prune_entry R) (filter (clear R) (walk anc n))"
proof (induction n arbitrary: anc)
  case (Element i t c a ks)
  let ?n = "Element i t c a ks"
  have kids: "walks (map (prune R) (?n # anc)) (cut R ks)
          = map (prune_entry R) (filter (clear R) (walks (?n # anc) ks))"
    using Element.prems by (intro walks_prune_kids Element.IH) auto
  have head: "clear R (anc, ?n)"
    using Element.prems by (simp add: clear_def)
  have "walk (map (prune R) anc) (prune R ?n)
          = (map (prune R) anc, prune R ?n) # walks (map (prune R) (?n # anc)) (cut R ks)"
    by (simp add: walks_def cut_def)
  also have "\<dots> = prune_entry R (anc, ?n)
          # map (prune_entry R) (filter (clear R) (walks (?n # anc) ks))"
    unfolding kids by (simp add: prune_entry_def)
  also have "\<dots> = map (prune_entry R) (filter (clear R) (walk anc ?n))"
    using head by (simp add: walks_def)
  finally show ?case .
qed simp

lemma walks_prune:
  "\<forall>m\<in>set anc. \<not> is_elem R m \<Longrightarrow>
   walks (map (prune R) anc) (cut R ns) = map (prune_entry R) (filter (clear R) (walks anc ns))"
  by (rule walks_prune_kids) (rule walk_prune)


subsection \<open>Pruned entries\<close>

lemma eid_prune_entry [simp]: "eid (prune_entry R e) = eid e"
  by (simp add: eid_def prune_entry_def)

lemma prune_entry_sel [simp]:
  "fst (prune_entry R e) = map (prune R) (fst e)" "snd (prune_entry R e) = prune R (snd e)"
  by (simp_all add: prune_entry_def)

lemma selectors_prune [simp]:
  "is_span_cbg1qdk (prune R n) = is_span_cbg1qdk n"
  "is_div_deu1fhf (prune R n) = is_div_deu1fhf n"
  "is_div (prune R n) = is_div n"
  by (simp_all add: is_span_cbg1qdk_def is_div_deu1fhf_def is_div_def hasClass_def)

lemma is_svg_use_prune [simp]: "is_svg_use (prune_entry R e) = is_svg_use e"
  by (simp add: is_svg_use_def getAttribute_def list_ex_iff)

lemma closest_in_prune:
  "(\<And>m. P (prune R m) = P m) \<Longrightarrow>
   closest_in P (map (prune R) ch) = map_option (prune_entry R) (closest_in P ch)"
  by (induction ch) (simp_all add: prune_entry_def)

lemma chordContainerFor_prune:
  "chordContainerFor (prune_entry R e) = map_option (prune_entry R) (chordContainerFor e)"
proof -
  have a: "closest P (prune_entry R e) = map_option (prune_entry R) (closest P e)"
    if "\<And>m. P (prune R m) = P m" for P
    using closest_in_prune [of P R "snd e # fst e"] that by (simp add: closest_def)
  show ?thesis
    by (simp add: chordContainerFor_def a split: option.split)
qed

lemma closest_in_clear:
  "closest_in P ch = Some c \<Longrightarrow> set (snd c # fst c) \<subseteq> set ch"
  by (induction ch) (auto split: if_splits)

lemma chordContainerFor_chain:
  "chordContainerFor e = Some c \<Longrightarrow> set (snd c # fst c) \<subseteq> set (snd e # fst e)"
  using closest_in_clear [of _ "snd e # fst e" c]
  by (auto simp: chordContainerFor_def closest_def split: option.splits)

lemma chordContainerFor_clear:
  "chordContainerFor e = Some c \<Longrightarrow> clear R e \<Longrightarrow> clear R c"
  using chordContainerFor_chain [of e c] by (auto simp: clear_def)

lemma descendants_prune:
  "clear R e \<Longrightarrow>
   descendants (prune_entry R e) = map (prune_entry R) (filter (clear R) (descendants e))"
proof (cases "snd e")
  case (Element i t c a ks)
  assume "clear R e"
  then have "\<forall>m\<in>set (snd e # fst e). \<not> is_elem R m"
    by (simp add: clear_def)
  from walks_prune [OF this, of ks] show ?thesis
    using Element by (simp add: descendants_def cut_def)
next
  case (Text s)
  then show ?thesis
    by (simp add: descendants_def)
qed

lemma isChordBlock_prune: "clear R c \<Longrightarrow> isChordBlock (prune_entry R c) \<Longrightarrow> isChordBlock c"
  by (auto simp: isChordBlock_def descendants_prune list_ex_iff)

lemma prune_id: "\<forall>m\<in>set (elems n). nid m \<notin> R \<Longrightarrow> prune R n = n"
proof (induction n)
  case (Element i t c a ks)
  have "\<forall>k\<in>set ks. \<not> is_elem R k"
  proof
    fix k assume k: "k \<in> set ks"
    show "\<not> is_elem R k"
    proof (cases k)
      case (Element j t' c' a' ks')
      then have "k \<in> set (elems k)" by simp
      then show ?thesis
        using Element.prems k Element by (force simp: is_elem_def)
    qed (simp add: is_elem_def)
  qed
  then have "filter (\<lambda>k. \<not> is_elem R k) ks = ks"
    by simp
  moreover have "map (prune R) ks = ks"
    using Element by (intro map_idI) auto
  ultimately show ?case by simp
qed simp


subsection \<open>Pages without a shared identity\<close>

lemma find_distinct:
  "distinct (map f xs) \<Longrightarrow> e \<in> set xs \<Longrightarrow> find (\<lambda>y. f y = f e) xs = Some e"
  by (induction xs) (auto simp: image_iff)

lemma entry_of_wf: "wf_dom d \<Longrightarrow> e \<in> set (all_entries d) \<Longrightarrow> entry_of d (eid e) = Some e"
  unfolding wf_dom_def entry_of_def by (rule find_distinct)

lemma entry_of_SomeD: "entry_of d i = Some e \<Longrightarrow> e \<in> set (all_entries d) \<and> eid e = i"
  by (auto simp: entry_of_def find_Some_iff in_set_conv_nth)

lemma entry_of_None: "entry_of d i = None \<Longrightarrow> i \<notin> eid ` set (all_entries d)"
  by (auto simp: entry_of_def find_None_iff)

lemma walk_sub:
  "e \<in> set (walk anc m) \<Longrightarrow> \<exists>pre post. walk anc m = pre @ walk (fst e) (snd e) @ post"
proof (induction m arbitrary: anc)
  case (Element i t c a ks)
  let ?m = "Element i t c a ks"
  show ?case
  proof (cases "e = (anc, ?m)")
    case True
    then have "walk anc ?m = [] @ walk (fst e) (snd e) @ []" by simp
    then show ?thesis by blast
  next
    case False
    then have "e \<in> set (concat (map (walk (?m # anc)) ks))"
      using Element.prems by simp
    then obtain k where k: "k \<in> set ks" "e \<in> set (walk (?m # anc) k)"
      by auto
    then obtain pre post where pp: "walk (?m # anc) k = pre @ walk (fst e) (snd e) @ post"
      using Element.IH by blast
    obtain ks1 ks2 where ks: "ks = ks1 @ k # ks2"
      using k(1) by (meson split_list)
    have "walk anc ?m = ((anc, ?m) # concat (map (walk (?m # anc)) ks1) @ pre)
            @ walk (fst e) (snd e) @ (post @ concat (map (walk (?m # anc)) ks2))"
      using pp by (subst walk.simps) (simp add: ks)
    then show ?thesis by blast
  qed
qed simp

lemma walks_sub:
  "e \<in> set (walks anc ns) \<Longrightarrow> \<exists>pre post. walks anc ns = pre @ walk (fst e) (snd e) @ post"
proof -
  assume "e \<in> set (walks anc ns)"
  then obtain k where k: "k \<in> set ns" "e \<in> set (walk anc k)"
    by (auto simp: walks_def)
  then obtain pre post where pp: "walk anc k = pre @ walk (fst e) (snd e) @ post"
    using walk_sub by blast
  obtain ks1 ks2 where ks: "ns = ks1 @ k # ks2"
    using k(1) by (meson split_list)
  have "walks anc ns = (walks anc ks1 @ pre) @ walk (fst e) (snd e) @ (post @ walks anc ks2)"
    using pp by (simp add: walks_def ks)
  then show ?thesis by blast
qed

lemma all_entries_sub:
  "e \<in> set (all_entries d) \<Longrightarrow> \<exists>pre post. all_entries d = pre @ walk (fst e) (snd e) @ post"
proof -
  assume "e \<in> set (all_entries d)"
  then consider "e \<in> set (walks [] (document d))" | "e \<in> set (walks [] (detached d))"
    by (auto simp: all_entries_def)
  then show ?thesis
  proof cases
    case 1
    then obtain pre post where "walks [] (document d) = pre @ walk (fst e) (snd e) @ post"
      using walks_sub by blast
    then have "all_entries d = pre @ walk (fst e) (snd e) @ (post @ walks [] (detached d))"
      by (simp add: all_entries_def)
    then show ?thesis by blast
  next
    case 2
    then obtain pre post where "walks [] (detached d) = pre @ walk (fst e) (snd e) @ post"
      using walks_sub by blast
    then have "all_entries d = (walks [] (document d) @ pre) @ walk (fst e) (snd e) @ post"
      by (simp add: all_entries_def)
    then show ?thesis by blast
  qed
qed

lemma walk_ids: "map eid (walk anc n) = map nid (elems n)"
proof -
  have "map eid (walk anc n) = map nid (map snd (walk anc n))"
    by (simp add: eid_def)
  then show ?thesis
    by (simp only: walk_elems)
qed

lemma walks_Element: "e \<in> set (walks anc ns) \<Longrightarrow> \<exists>j t c a ks. snd e = Element j t c a ks"
proof -
  assume "e \<in> set (walks anc ns)"
  then have "snd e \<in> set (forest_elems ns)"
    unfolding walks_elems [symmetric, of ns anc] by force
  then show ?thesis
    using elems_Element by (auto simp: forest_elems_def)
qed

lemma entry_Element:
  "e \<in> set (all_entries d) \<Longrightarrow> \<exists>j t c a ks. snd e = Element j t c a ks"
  using walks_Element [of e "[]" "document d"] walks_Element [of e "[]" "detached d"]
  by (auto simp: all_entries_def)

lemma entry_is_elem: "e \<in> set (all_entries d) \<Longrightarrow> is_elem R (snd e) \<longleftrightarrow> eid e \<in> R"
  using entry_Element [of e d] by (auto simp: is_elem_def eid_def)

lemma walk_own_chain: "e \<in> set (walk (fst e0) (snd e0)) \<Longrightarrow> is_elem R (snd e0) \<Longrightarrow> \<not> clear R e"
  using walk_chain [of e "fst e0" "snd e0"] by (auto simp: clear_def)

lemma cut_id: "\<forall>m\<in>set (forest_elems ns). nid m \<notin> R \<Longrightarrow> cut R ns = ns"
proof -
  assume a: "\<forall>m\<in>set (forest_elems ns). nid m \<notin> R"
  have "\<forall>k\<in>set ns. \<not> is_elem R k"
  proof
    fix k assume k: "k \<in> set ns"
    show "\<not> is_elem R k"
    proof (cases k)
      case (Element j t' c' a' ks')
      then have "k \<in> set (forest_elems ns)"
        using k by (auto simp: forest_elems_def intro!: bexI [of _ k])
      then show ?thesis
        using a Element by (force simp: is_elem_def)
    qed (simp add: is_elem_def)
  qed
  then have "filter (\<lambda>k. \<not> is_elem R k) ns = ns"
    by simp
  moreover have "map (prune R) ns = ns"
    using a by (intro map_idI prune_id) (auto simp: forest_elems_def)
  ultimately show ?thesis
    by (simp add: cut_def)
qed

lemma all_entries_remove:
  assumes "entry_of d i = Some e" "i \<notin> set (root_ids (detached d))"
  shows "all_entries (remove_node i d)
           = map (prune_entry {i}) (filter (clear {i}) (all_entries d)) @ walk [] (snd e)"
  using assms walks_prune [of "[]" "{i}"]
  by (simp add: remove_node_def all_entries_def walks_def [of _ "_ @ _"]) (simp add: walks_def)

lemma wf_remove_node: "wf_dom d \<Longrightarrow> wf_dom (remove_node i d)"
proof (cases "entry_of d i")
  case None
  assume "wf_dom d"
  then show ?thesis using None by (simp add: remove_node_def)
next
  case (Some e)
  assume wf: "wf_dom d"
  show ?thesis
  proof (cases "i \<in> set (root_ids (detached d))")
    case True
    then show ?thesis using wf by (simp add: remove_node_def)
  next
    case False
    have e: "e \<in> set (all_entries d)" "eid e = i"
      using entry_of_SomeD [OF Some] by auto
    obtain pre post where pp: "all_entries d = pre @ walk (fst e) (snd e) @ post"
      using all_entries_sub [OF e(1)] by blast
    have d1: "distinct (map eid (filter (clear {i}) (all_entries d)))"
      using wf by (simp add: wf_dom_def distinct_map_filter)
    have d2: "distinct (map eid (walk [] (snd e)))"
      using wf unfolding wf_dom_def pp walk_ids [of "[]"] walk_ids [symmetric, of "snd e" "fst e"]
      by simp
    have el: "is_elem {i} (snd e)"
      using e by (simp add: entry_is_elem)
    have d3: "eid x \<noteq> eid y" if "x \<in> set (filter (clear {i}) (all_entries d))"
      "y \<in> set (walk (fst e) (snd e))" for x y
    proof
      assume eq: "eid x = eid y"
      have "y \<in> set (all_entries d)" using that(2) pp by simp
      moreover have "x \<in> set (all_entries d)" using that(1) by simp
      ultimately have "x = y"
        using wf eq by (auto simp: wf_dom_def distinct_map inj_on_def)
      then show False
        using that walk_own_chain [OF that(2) el] by simp
    qed
    have "set (map eid (walk [] (snd e))) = set (map eid (walk (fst e) (snd e)))"
      by (simp only: walk_ids)
    then have d3': "set (map eid (filter (clear {i}) (all_entries d))) \<inter> set (map eid (walk [] (snd e))) = {}"
      using d3 by auto
    show ?thesis
      unfolding wf_dom_def all_entries_remove [OF Some False]
      using d1 d2 d3' by (simp add: comp_def)
  qed
qed


lemma root_ids_entries: "set (root_ids ns) \<subseteq> eid ` set (walks anc ns)"
proof
  fix i assume "i \<in> set (root_ids ns)"
  then obtain t c a ks where "Element i t c a ks \<in> set ns"
    by (auto simp: root_ids_def split: node.splits)
  then have "(anc, Element i t c a ks) \<in> set (walks anc ns)"
    by (auto simp: walks_def intro!: bexI [of _ "Element i t c a ks"])
  then show "i \<in> eid ` set (walks anc ns)"
    by (force simp: eid_def)
qed

lemma walks_ids: "map eid (walks anc ns) = map nid (forest_elems ns)"
proof -
  have "map eid (walks anc ns) = map nid (map snd (walks anc ns))"
    by (simp add: eid_def)
  then show ?thesis
    by (simp only: walks_elems)
qed

lemma document_remove_node:
  assumes "wf_dom d"
  shows "document (remove_node c d) = cut {c} (document d)"
proof -
  have disj: "set (map eid (walks [] (document d))) \<inter> set (map eid (walks [] (detached d))) = {}"
    using assms by (simp add: wf_dom_def all_entries_def)
  have absent: "cut {c} (document d) = document d" if "c \<notin> eid ` set (walks [] (document d))"
  proof (rule cut_id)
    show "\<forall>m\<in>set (forest_elems (document d)). nid m \<notin> {c}"
      using that walks_ids [of "[]" "document d"]
      by (metis image_eqI list.set_map singletonD)
  qed
  show ?thesis
  proof (cases "c \<in> set (root_ids (detached d))")
    case True
    then have "c \<in> eid ` set (walks [] (detached d))"
      using root_ids_entries by blast
    then have "c \<notin> eid ` set (walks [] (document d))"
      using disj by auto
    then show ?thesis
      using True absent by (simp add: remove_node_def)
  next
    case False
    show ?thesis
    proof (cases "entry_of d c")
      case None
      then have "c \<notin> eid ` set (walks [] (document d))"
        using entry_of_None [OF None] by (auto simp: all_entries_def)
      then show ?thesis
        using None False absent by (simp add: remove_node_def)
    next
      case (Some e)
      then show ?thesis
        using False by (simp add: remove_node_def)
    qed
  qed
qed

lemma doc_entries_remove_node:
  "wf_dom d \<Longrightarrow>
   doc_entries (remove_node c d) = map (prune_entry {c}) (filter (clear {c}) (doc_entries d))"
  using walks_prune [of "[]" "{c}" "document d"]
  by (simp add: doc_entries_def document_remove_node)

lemma walk_parent:
  "e \<in> set (walk anc n) \<Longrightarrow> e \<noteq> (anc, n) \<Longrightarrow>
   \<exists>p rest. fst e = p # rest \<and> (rest, p) \<in> set (walk anc n)"
proof (induction n arbitrary: anc)
  case (Element i t c a ks)
  let ?n = "Element i t c a ks"
  obtain k where k: "k \<in> set ks" "e \<in> set (walk (?n # anc) k)"
    using Element.prems by auto
  show ?case
  proof (cases "e = (?n # anc, k)")
    case True
    then show ?thesis by simp
  next
    case False
    then obtain p rest where "fst e = p # rest" "(rest, p) \<in> set (walk (?n # anc) k)"
      using Element.IH [OF k] by blast
    then show ?thesis
      using k(1) by auto
  qed
qed simp

lemma walks_parent:
  "e \<in> set (walks [] ns) \<Longrightarrow> fst e = p # rest \<Longrightarrow> (rest, p) \<in> set (walks [] ns)"
proof -
  assume e: "e \<in> set (walks [] ns)" and f: "fst e = p # rest"
  then obtain k where k: "k \<in> set ns" "e \<in> set (walk [] k)"
    by (auto simp: walks_def)
  have "e \<noteq> ([], k)" using f by auto
  from walk_parent [OF k(2) this] show ?thesis
    using f k(1) by (auto simp: walks_def)
qed

lemma walks_chain_entries:
  "e \<in> set (walks [] ns) \<Longrightarrow> closest_in P (snd e # fst e) = Some c \<Longrightarrow> c \<in> set (walks [] ns)"
proof (induction "fst e" arbitrary: e)
  case Nil
  then show ?case
    by (cases e) (auto split: if_splits)
next
  case (Cons p rest)
  have par: "(rest, p) \<in> set (walks [] ns)"
    using walks_parent [OF Cons.prems(1)] Cons.hyps(2) by simp
  show ?case
  proof (cases "P (snd e)")
    case True
    then show ?thesis
      using Cons.prems by (cases e) auto
  next
    case False
    then have "closest_in P (snd (rest, p) # fst (rest, p)) = Some c"
      using Cons.prems(2) Cons.hyps(2) [symmetric] by simp
    then show ?thesis
      using Cons.hyps(1) [of "(rest, p)"] par by simp
  qed
qed

lemma chordContainerFor_entry:
  "e \<in> set (walks [] ns) \<Longrightarrow> chordContainerFor e = Some c \<Longrightarrow> c \<in> set (walks [] ns)"
  using walks_chain_entries [of e ns]
  by (auto simp: chordContainerFor_def closest_def split: option.splits)

lemma closest_in_holds: "closest_in P ch = Some c \<Longrightarrow> P (snd c)"
  by (induction ch) (auto split: if_splits)

lemma chordContainerFor_div: "chordContainerFor e = Some c \<Longrightarrow> is_div (snd c)"
  using closest_in_holds [of is_div_deu1fhf "snd e # fst e" c]
    closest_in_holds [of is_div "snd e # fst e" c]
  by (auto simp: chordContainerFor_def closest_def is_div_deu1fhf_def is_div_def
      split: option.splits)


lemma settled_purge_span: "settled_at h b e \<Longrightarrow> purge_span h b d e = d"
  by (auto simp: settled_at_def purge_span_def split: option.splits)

lemma doc_entries_all: "set (doc_entries d) \<subseteq> set (all_entries d)"
  by (simp add: doc_entries_def all_entries_def)

lemma wf_same_entry:
  "wf_dom d \<Longrightarrow> y \<in> set (all_entries d) \<Longrightarrow> z \<in> set (all_entries d) \<Longrightarrow> eid y = eid z \<Longrightarrow> y = z"
  by (auto simp: wf_dom_def distinct_map inj_on_def)

lemma text_prune_name:
  assumes wf: "wf_dom d" and ns: "no_div_in_chord_name d"
    and y: "y \<in> set (doc_entries d)" "is_span_cbg1qdk (snd y)" "clear {c} y"
    and ce: "ce \<in> set (all_entries d)" "is_div (snd ce)" "eid ce = c"
  shows "prune {c} (snd y) = snd y"
proof (rule prune_id, rule ballI)
  fix m assume m: "m \<in> set (elems (snd y))"
  show "nid m \<notin> {c}"
  proof
    assume "nid m \<in> {c}"
    then have mc: "nid m = c" by simp
    obtain z where z: "z \<in> set (walk (fst y) (snd y))" "snd z = m"
      using m walk_elems [of "fst y" "snd y"] by (metis in_set_conv_nth length_map nth_map)
    obtain pre post where "doc_entries d = pre @ walk (fst y) (snd y) @ post"
      using walks_sub [of y "[]" "document d"] y(1) by (auto simp: doc_entries_def)
    then have zd: "z \<in> set (doc_entries d)"
      using z(1) by simp
    then have "z \<in> set (all_entries d)"
      using doc_entries_all [of d] by blast
    moreover have "eid z = eid ce"
      using z(2) mc ce(3) by (simp add: eid_def)
    ultimately have "z = ce"
      using wf_same_entry [OF wf _ ce(1)] by blast
    moreover have "snd y \<in> set (snd z # fst z)"
      using walk_chain [OF z(1)] by simp
    moreover have "snd z \<noteq> snd y"
    proof
      assume "snd z = snd y"
      then have "eid y \<in> {c}"
        using z(2) mc by (simp add: eid_def)
      moreover have "y \<in> set (all_entries d)"
        using y(1) doc_entries_all [of d] by blast
      ultimately have "is_elem {c} (snd y)"
        by (simp add: entry_is_elem)
      then show False
        using y(3) by (simp add: clear_def)
    qed
    ultimately have "list_ex is_span_cbg1qdk (fst ce)"
      using y(2) by (auto simp: list_ex_iff)
    then show False
      using ns zd \<open>z = ce\<close> ce(2) by (auto simp: no_div_in_chord_name_def list_all_iff)
  qed
qed

lemma purge_step_cases:
  "(purge_step h b s d = d \<and> (\<forall>e. entry_of d s = Some e \<longrightarrow> settled_at h b e))
   \<or> (\<exists>e ce. entry_of d s = Some e \<and> isTargetSpan h b (snd e)
         \<and> chordContainerFor e = Some ce \<and> isChordBlock ce
         \<and> purge_step h b s d = remove_node (eid ce) d)"
proof (cases "entry_of d s")
  case None
  then show ?thesis by (simp add: purge_step_def)
next
  case (Some e)
  show ?thesis
  proof (cases "isTargetSpan h b (snd e)")
    case False
    then show ?thesis
      using Some by (simp add: purge_step_def purge_span_def settled_at_def)
  next
    case True
    show ?thesis
    proof (cases "chordContainerFor e")
      case None
      then show ?thesis
        using Some True by (simp add: purge_step_def purge_span_def settled_at_def)
    next
      case ce: (Some ce)
      show ?thesis
      proof (cases "isChordBlock ce")
        case False
        then show ?thesis
          using Some True ce by (simp add: purge_step_def purge_span_def settled_at_def)
      next
        case block: True
        have "purge_step h b s d = remove_node (eid ce) d"
          using Some True ce block by (simp add: purge_step_def purge_span_def)
        then show ?thesis
          using Some True ce block by blast
      qed
    qed
  qed
qed

lemma purge_step_inv:
  assumes inv: "purge_inv h b S D d"
  shows "purge_inv h b S (insert s D) (purge_step h b s d)"
proof -
  have wf: "wf_dom d" and ns: "no_div_in_chord_name d"
    and sp: "\<And>e. e \<in> set (doc_entries d) \<Longrightarrow> is_span_cbg1qdk (snd e) \<Longrightarrow>
               eid e \<in> S \<and> (eid e \<in> D \<longrightarrow> settled_at h b e)"
    using inv by (auto simp: purge_inv_def)
  consider (same) "purge_step h b s d = d"
      "\<forall>e. entry_of d s = Some e \<longrightarrow> settled_at h b e"
    | (removed) e ce where "entry_of d s = Some e" "isTargetSpan h b (snd e)"
      "chordContainerFor e = Some ce" "isChordBlock ce"
      "purge_step h b s d = remove_node (eid ce) d"
    using purge_step_cases [of h b s d] by blast
  then show ?thesis
  proof cases
    case same
    have "settled_at h b e" if "e \<in> set (doc_entries d)" "eid e = s" for e
    proof -
      have "e \<in> set (all_entries d)"
        using that(1) doc_entries_all [of d] by blast
      then have "entry_of d s = Some e"
        using entry_of_wf [OF wf] that(2) by blast
      then show ?thesis
        using same(2) by blast
    qed
    then show ?thesis
      using same(1) wf ns sp by (auto simp: purge_inv_def)
  next
    case removed
    let ?c = "eid ce"
    let ?d = "remove_node ?c d"
    have e: "e \<in> set (all_entries d)" "eid e = s"
      using entry_of_SomeD [OF removed(1)] by auto
    have ce: "ce \<in> set (all_entries d)" "is_div (snd ce)"
      using e(1) chordContainerFor_entry [OF _ removed(3)] chordContainerFor_div [OF removed(3)]
      by (auto simp: all_entries_def)
    have e_hit: "\<not> clear {?c} e"
      using chordContainerFor_chain [OF removed(3)] entry_is_elem [OF ce(1), of "{?c}"]
      by (auto simp: clear_def)
    have ents: "doc_entries ?d = map (prune_entry {?c}) (filter (clear {?c}) (doc_entries d))"
      by (rule doc_entries_remove_node [OF wf])
    have wf': "wf_dom ?d"
      by (rule wf_remove_node [OF wf])
    have ns': "no_div_in_chord_name ?d"
      using ns by (auto simp: no_div_in_chord_name_def list_all_iff ents list_ex_iff)
    have sp': "eid y' \<in> S \<and> (eid y' \<in> insert s D \<longrightarrow> settled_at h b y')"
      if y': "y' \<in> set (doc_entries ?d)" "is_span_cbg1qdk (snd y')" for y'
    proof -
      obtain y where y: "y \<in> set (doc_entries d)" "clear {?c} y" "y' = prune_entry {?c} y"
        using y'(1) by (auto simp: ents)
      have ys: "is_span_cbg1qdk (snd y)"
        using y'(2) y(3) by simp
      have same_node: "snd y' = snd y"
        using text_prune_name [OF wf ns y(1) ys y(2) ce(1) ce(2)] y(3) by simp
      have "eid y \<noteq> s"
        using wf_same_entry [OF wf _ e(1), of y] y(1) y(2) e(2) e_hit doc_entries_all [of d]
        by auto
      moreover have "settled_at h b y'" if "settled_at h b y"
      proof (cases "chordContainerFor y")
        case None
        then show ?thesis
          using that same_node y(3) by (simp add: settled_at_def chordContainerFor_prune)
      next
        case (Some cy)
        have "clear {?c} cy"
          by (rule chordContainerFor_clear [OF Some y(2)])
        then have "\<not> isChordBlock cy \<Longrightarrow> \<not> isChordBlock (prune_entry {?c} cy)"
          using isChordBlock_prune by blast
        then show ?thesis
          using that same_node y(3) Some by (auto simp: settled_at_def chordContainerFor_prune)
      qed
      ultimately show ?thesis
        using sp [OF y(1) ys] y(3) by auto
    qed
    show ?thesis
      unfolding removed(5) purge_inv_def using wf' ns' sp' by blast
  qed
qed

lemma purge_fold_inv:
  "purge_inv h b S D d \<Longrightarrow> purge_inv h b S (D \<union> set ss) (fold (purge_step h b) ss d)"
proof (induction ss arbitrary: D d)
  case Nil
  then show ?case by simp
next
  case (Cons s ss)
  have "purge_inv h b S (insert s D \<union> set ss) (fold (purge_step h b) ss (purge_step h b s d))"
    by (rule Cons.IH) (rule purge_step_inv [OF Cons.prems])
  then show ?case by simp
qed

lemma fold_fixed: "\<forall>s\<in>set ss. f s d = d \<Longrightarrow> fold f ss d = d"
  by (induction ss) simp_all

lemma purge_settled:
  assumes "wf_dom d"
    and "\<forall>e\<in>set (doc_entries d). is_span_cbg1qdk (snd e) \<longrightarrow> settled_at h b e"
  shows "purge h b Document d = d"
  unfolding purge_def
proof (rule fold_fixed, rule ballI)
  fix s assume "s \<in> set (querySelectorAll (\<lambda>e. is_span_cbg1qdk (snd e)) d Document)"
  then obtain e where e: "e \<in> set (doc_entries d)" "is_span_cbg1qdk (snd e)" "eid e = s"
    by (auto simp: querySelectorAll_def query_root_def)
  then have "entry_of d s = Some e"
    using entry_of_wf [OF assms(1), of e] doc_entries_all [of d] by auto
  then show "purge_step h b s d = d"
    using assms(2) e by (simp add: purge_step_def settled_purge_span)
qed

text \<open>
  C9, as amended. On a page where no two elements share an identity and no
  \<open>div\<close> lies inside a \<open>span.cbg1qdk\<close>, \<open>purge\<close> run twice on the document
  leaves the page as \<open>purge\<close> run once does: the second run removes nothing.
\<close>

theorem purge_idempotent:
  assumes "wf_dom d" and "no_div_in_chord_name d"
  shows "purge h blocked Document (purge h blocked Document d) = purge h blocked Document d"
proof -
  let ?ss = "querySelectorAll (\<lambda>e. is_span_cbg1qdk (snd e)) d Document"
  have "purge_inv h blocked (set ?ss) {} d"
    using assms by (auto simp: purge_inv_def querySelectorAll_def query_root_def)
  then have "purge_inv h blocked (set ?ss) ({} \<union> set ?ss) (fold (purge_step h blocked) ?ss d)"
    by (rule purge_fold_inv)
  then have inv: "purge_inv h blocked (set ?ss) (set ?ss) (purge h blocked Document d)"
    by (simp add: purge_def)
  show ?thesis
    by (rule purge_settled) (use inv in \<open>auto simp: purge_inv_def\<close>)
qed

lemmas page_defs = chord_block_def chord_name_def diagram_def

theorem purge_idempotent_witness:
  "wf_dom page_chords \<and> no_div_in_chord_name page_chords
   \<and> document (purge plain_host blockedChordsList Document page_chords)
       = [Element 0 ''body'' [] []
           [Element 1 ''div'' [] [] [chord_block 10 [68, 55], chord_block 30 [65, 55]]]]
   \<and> purge plain_host blockedChordsList Document
         (purge plain_host blockedChordsList Document page_chords)
       = purge plain_host blockedChordsList Document page_chords"
proof -
  have a: "wf_dom page_chords"
    by (simp add: wf_dom_def page_chords_def query_defs page_defs)
  have b: "no_div_in_chord_name page_chords"
    by (simp add: no_div_in_chord_name_def page_chords_def query_defs selector_defs page_defs)
  have c: "document (purge plain_host blockedChordsList Document page_chords)
       = [Element 0 ''body'' [] []
           [Element 1 ''div'' [] [] [chord_block 10 [68, 55], chord_block 30 [65, 55]]]]"
    by (simp add: page_chords_def query_defs selector_defs purge_defs page_defs)
  show ?thesis
    using purge_idempotent [OF a b, of plain_host blockedChordsList] a b c by simp
qed

text \<open>
  C9 as stated fails on \<open>page_block_in_name\<close>: the first run removes the inner
  block B, which leaves the outer name with the text A; the second run then
  removes the outer block.
\<close>

theorem purge_twice_differs:
  "document (purge plain_host blockedChordsList Document
      (purge plain_host blockedChordsList Document page_block_in_name))
   \<noteq> document (purge plain_host blockedChordsList Document page_block_in_name)"
proof -
  have a: "document (purge plain_host blockedChordsList Document page_block_in_name)
     = [Element 0 ''body'' [] []
         [Element 1 ''div'' [''deu1fhf''] []
           [diagram 2, Element 4 ''span'' [''cbg1qdk''] [] [Text [65]]]]]"
    by (simp add: page_block_in_name_def query_defs selector_defs purge_defs page_defs)
  have b: "document (purge plain_host blockedChordsList Document
      (purge plain_host blockedChordsList Document page_block_in_name))
     = [Element 0 ''body'' [] [] []]"
    by (simp add: page_block_in_name_def query_defs selector_defs purge_defs page_defs)
  show ?thesis
    unfolding a b by simp
qed

subsection \<open>What purge removes\<close>

lemma is_elem_Un: "is_elem (R \<union> S) n \<longleftrightarrow> is_elem R n \<or> is_elem S n"
  by (cases n) (simp_all add: is_elem_def)

lemma prune_prune: "prune S (prune R n) = prune (R \<union> S) n"
proof (induction n)
  case (Element i t c a ks)
  have "map (prune S) (filter (\<lambda>k. \<not> is_elem S k) (map (prune R) (filter (\<lambda>k. \<not> is_elem R k) ks)))
      = map (prune (R \<union> S)) (filter (\<lambda>k. \<not> is_elem (R \<union> S) k) ks)"
    using Element by (induction ks) (auto simp: is_elem_Un)
  then show ?case by simp
qed simp

lemma cut_cut: "cut S (cut R ns) = cut (R \<union> S) ns"
  unfolding cut_def by (induction ns) (auto simp: is_elem_Un prune_prune)

lemma walk_head:
  "e \<in> set (walks anc ns) \<Longrightarrow> walk (fst e) (snd e) = e # descendants e"
  using walks_Element [of e anc ns] by (cases e) (auto simp: descendants_def walks_def)

lemma walk_under:
  "y \<in> set (walk anc n) \<Longrightarrow> m \<in> set (snd y # fst y) \<Longrightarrow> m \<notin> set anc \<Longrightarrow>
   \<exists>am. (am, m) \<in> set (walk anc n) \<and> y \<in> set (walk am m)"
proof (induction n arbitrary: anc)
  case (Element i t c a ks)
  let ?n = "Element i t c a ks"
  show ?case
  proof (cases "m = ?n")
    case True
    then show ?thesis
      using Element.prems(1) by (intro exI [of _ anc]) simp
  next
    case False
    then have "y \<noteq> (anc, ?n)"
      using Element.prems by auto
    then obtain k where k: "k \<in> set ks" "y \<in> set (walk (?n # anc) k)"
      using Element.prems(1) by auto
    have "m \<notin> set (?n # anc)"
      using False Element.prems(3) by simp
    then obtain am where "(am, m) \<in> set (walk (?n # anc) k)" "y \<in> set (walk am m)"
      using Element.IH [OF k Element.prems(2)] by blast
    then show ?thesis
      using k(1) by (intro exI [of _ am]) auto
  qed
qed simp

lemma walks_under:
  "y \<in> set (walks [] ns) \<Longrightarrow> m \<in> set (snd y # fst y) \<Longrightarrow>
   \<exists>am. (am, m) \<in> set (walks [] ns) \<and> y \<in> set (walk am m)"
proof -
  assume y: "y \<in> set (walks [] ns)" and m: "m \<in> set (snd y # fst y)"
  then obtain k where k: "k \<in> set ns" "y \<in> set (walk [] k)"
    by (auto simp: walks_def)
  obtain am where "(am, m) \<in> set (walk [] k)" "y \<in> set (walk am m)"
    using walk_under [OF k(2) m] by auto
  then show ?thesis
    using k(1) by (auto simp: walks_def)
qed

lemma walk_trans:
  "y \<in> set (walk (fst z) (snd z)) \<Longrightarrow> z \<in> set (walk anc n) \<Longrightarrow> y \<in> set (walk anc n)"
  using walk_sub [of z anc n] by auto

lemma prune_covered:
  "\<forall>m\<in>set anc. \<not> is_elem R m \<Longrightarrow>
   \<forall>e\<in>set (walk anc n). eid e = c \<longrightarrow> \<not> clear R e \<Longrightarrow>
   \<not> is_elem R n \<Longrightarrow>
   prune (insert c R) n = prune R n"
proof (induction n arbitrary: anc)
  case (Element i t ca a ks)
  let ?n = "Element i t ca a ks"
  have chain: "\<forall>m\<in>set (?n # anc). \<not> is_elem R m"
    using Element.prems by simp
  have kid: "\<not> is_elem R k \<Longrightarrow> \<not> is_elem (insert c R) k \<and> prune (insert c R) k = prune R k"
    if k: "k \<in> set ks" for k
  proof -
    assume nk: "\<not> is_elem R k"
    have sub: "set (walk (?n # anc) k) \<subseteq> set (walk anc ?n)"
      using k by auto
    have a: "\<not> is_elem (insert c R) k"
    proof (cases k)
      case (Element j t' c' a' ks')
      then have "(?n # anc, k) \<in> set (walk anc ?n)"
        using k sub by auto
      moreover have "clear R (?n # anc, k)"
        using chain nk by (simp add: clear_def)
      ultimately have "eid (?n # anc, k) \<noteq> c"
        using Element.prems(2) by blast
      then show ?thesis
        using nk Element by (simp add: is_elem_def eid_def)
    qed (simp add: is_elem_def)
    have "prune (insert c R) k = prune R k"
      using Element.IH [OF k chain _ nk] Element.prems(2) sub by blast
    then show ?thesis using a by simp
  qed
  have "map (prune (insert c R)) (filter (\<lambda>k. \<not> is_elem (insert c R) k) ks)
      = map (prune R) (filter (\<lambda>k. \<not> is_elem R k) ks)"
    using kid
  proof (induction ks)
    case Nil
    then show ?case by simp
  next
    case (Cons k ks)
    have "is_elem R k \<Longrightarrow> is_elem (insert c R) k"
      by (cases k) (simp_all add: is_elem_def)
    then show ?case
      using Cons by (cases "is_elem R k") auto
  qed
  then show ?case by simp
qed simp

lemma cut_covered:
  assumes "\<forall>e\<in>set (walks [] ns). eid e = c \<longrightarrow> \<not> clear R e"
  shows "cut (insert c R) ns = cut R ns"
proof -
  have kid: "\<not> is_elem R k \<Longrightarrow> \<not> is_elem (insert c R) k \<and> prune (insert c R) k = prune R k"
    if k: "k \<in> set ns" for k
  proof -
    assume nk: "\<not> is_elem R k"
    have sub: "set (walk [] k) \<subseteq> set (walks [] ns)"
      using k by (auto simp: walks_def)
    have a: "\<not> is_elem (insert c R) k"
    proof (cases k)
      case (Element j t' c' a' ks')
      then have "([], k) \<in> set (walks [] ns)"
        using k sub by auto
      moreover have "clear R ([], k)"
        using nk by (simp add: clear_def)
      ultimately have "eid ([], k) \<noteq> c"
        using assms by blast
      then show ?thesis
        using nk Element by (simp add: is_elem_def eid_def)
    qed (simp add: is_elem_def)
    have "prune (insert c R) k = prune R k"
      using prune_covered [of "[]" R k c] assms sub nk by auto
    then show ?thesis using a by simp
  qed
  have "map (prune (insert c R)) (filter (\<lambda>k. \<not> is_elem (insert c R) k) ns)
      = map (prune R) (filter (\<lambda>k. \<not> is_elem R k) ns)"
    using kid
  proof (induction ns)
    case Nil
    then show ?case by simp
  next
    case (Cons k ks)
    have "is_elem R k \<Longrightarrow> is_elem (insert c R) k"
      by (cases k) (simp_all add: is_elem_def)
    then show ?case
      using Cons by (cases "is_elem R k") auto
  qed
  then show ?thesis by (simp add: cut_def)
qed

lemma removed_for_append:
  "removed_for h b d (ss @ ts) = removed_for h b d ss \<union> removed_for h b d ts"
  by (auto simp: removed_for_def)

lemma set_map_filter: "set (List.map_filter f xs) = {y. \<exists>x\<in>set xs. f x = Some y}"
  by (induction xs) (auto simp: map_filter_simps split: option.splits)

lemma target_containers_iff:
  "c \<in> set (target_containers h b d) \<longleftrightarrow>
     (\<exists>e\<in>set (blocked_names h b d). chordContainerFor e = Some c) \<and> isChordBlock c"
  by (simp add: target_containers_def set_map_filter)

lemma removed_for_targets:
  "removed_for h b d ss \<subseteq> eid ` set (target_containers h b d)"
proof
  fix r assume "r \<in> removed_for h b d ss"
  then obtain e c where "e \<in> set (blocked_names h b d)" "chordContainerFor e = Some c"
    "isChordBlock c" "r = eid c"
    unfolding removed_for_def by blast
  then have "c \<in> set (target_containers h b d)"
    unfolding target_containers_iff by blast
  then show "r \<in> eid ` set (target_containers h b d)"
    using \<open>r = eid c\<close> by blast
qed

lemma removed_for_all:
  assumes "eid ` set (blocked_names h b d) \<subseteq> set ss"
  shows "removed_for h b d ss = eid ` set (target_containers h b d)"
proof
  show "removed_for h b d ss \<subseteq> eid ` set (target_containers h b d)"
    by (rule removed_for_targets)
  show "eid ` set (target_containers h b d) \<subseteq> removed_for h b d ss"
  proof
    fix r assume "r \<in> eid ` set (target_containers h b d)"
    then obtain c where c: "c \<in> set (target_containers h b d)" "r = eid c"
      by blast
    then obtain e where e: "e \<in> set (blocked_names h b d)" "chordContainerFor e = Some c"
      "isChordBlock c"
      unfolding target_containers_iff by blast
    then have "eid e \<in> set ss"
      using assms by blast
    then show "r \<in> removed_for h b d ss"
      unfolding removed_for_def using e c(2) by blast
  qed
qed

lemma distinct_doc_ids: "wf_dom d \<Longrightarrow> distinct (map eid (doc_entries d))"
  by (simp add: wf_dom_def all_entries_def doc_entries_def)

lemma doc_same_entry:
  "wf_dom d \<Longrightarrow> y \<in> set (doc_entries d) \<Longrightarrow> z \<in> set (doc_entries d) \<Longrightarrow> eid y = eid z
   \<Longrightarrow> y = z"
  using wf_same_entry [of d y z] doc_entries_all [of d] by blast

lemma under_container:
  assumes "wf_dom d" "e \<in> set (doc_entries d)" "c \<in> set (doc_entries d)"
    "snd c \<in> set (snd e # fst e)"
  shows "e \<in> set (walk (fst c) (snd c))"
proof -
  obtain am where am: "(am, snd c) \<in> set (doc_entries d)" "e \<in> set (walk am (snd c))"
    using walks_under [of e "document d" "snd c"] assms(2,4) by (auto simp: doc_entries_def)
  have "(am, snd c) = c"
    by (rule doc_same_entry [OF assms(1) am(1) assms(3)]) (simp add: eid_def)
  then show ?thesis
    using am(2) by (metis fst_conv)
qed

lemma doc_walk_sub:
  "z \<in> set (doc_entries d) \<Longrightarrow> set (walk (fst z) (snd z)) \<subseteq> set (doc_entries d)"
  using walks_sub [of z "[]" "document d"] by (auto simp: doc_entries_def)

lemma doc_walk_head: "z \<in> set (doc_entries d) \<Longrightarrow> walk (fst z) (snd z) = z # descendants z"
  unfolding doc_entries_def by (rule walk_head)

lemma inside_later:
  assumes wf: "wf_dom d"
    and L: "querySelectorAll (\<lambda>e. is_span_cbg1qdk (snd e)) d Document = L1 @ s # L2"
    and x: "x \<in> set (doc_entries d)" "is_span_cbg1qdk (snd x)" "eid x = s"
    and y: "y \<in> set (descendants x)"
  shows "eid y \<notin> set L1"
proof -
  define sp where "sp = (\<lambda>es. map eid (filter (\<lambda>e. is_span_cbg1qdk (snd e)) es))"
  have sp_app: "sp (as @ bs) = sp as @ sp bs" for as bs
    by (simp add: sp_def)
  have sp_sub: "set (sp as) \<subseteq> set (map eid as)" for as
    by (auto simp: sp_def)
  obtain pre post where pp: "doc_entries d = pre @ walk (fst x) (snd x) @ post"
    using walks_sub [of x "[]" "document d"] x(1) by (auto simp: doc_entries_def)
  have E: "doc_entries d = pre @ (x # descendants x) @ post"
    using pp doc_walk_head [OF x(1)] by simp
  have "distinct (map eid pre @ map eid (x # descendants x) @ map eid post)"
    using distinct_doc_ids [OF wf] unfolding E by simp
  then have disj: "set (map eid pre) \<inter> set (map eid (x # descendants x)) = {}"
    by auto
  have spE: "sp (doc_entries d) = sp pre @ s # sp (descendants x) @ sp post"
    unfolding E sp_app using x(2,3) by (simp add: sp_def)
  have spL: "sp (doc_entries d) = L1 @ s # L2"
    using L by (simp add: querySelectorAll_def query_root_def sp_def)
  have dl: "distinct (sp (doc_entries d))"
    using distinct_doc_ids [OF wf] by (simp add: distinct_map_filter sp_def)
  have n1: "s \<notin> set (sp pre)"
    using dl unfolding spE by simp
  have n2: "s \<notin> set (sp (descendants x) @ sp post)"
    using dl unfolding spE by simp
  have "sp pre @ s # sp (descendants x) @ sp post = L1 @ s # L2"
    using spL unfolding spE .
  then have "sp pre = L1 \<and> sp (descendants x) @ sp post = L2"
    by (rule iffD1 [OF append_Cons_eq_iff [OF n1 n2]])
  then have "sp pre = L1"
    by (rule conjunct1)
  then have "set L1 \<subseteq> set (map eid pre)"
    using sp_sub [of pre] by simp
  moreover have "eid y \<in> set (map eid (x # descendants x))"
    using y by simp
  ultimately show ?thesis
    using disj by blast
qed

lemma detached_step:
  assumes wf: "wf_dom d" and s: "s \<notin> eid ` set (doc_entries d)"
  shows "document (purge_step h b s d) = document d"
proof -
  consider (same) "purge_step h b s d = d"
    | (removed) e ce where "entry_of d s = Some e" "chordContainerFor e = Some ce"
      "purge_step h b s d = remove_node (eid ce) d"
    using purge_step_cases [of h b s d] by blast
  then show ?thesis
  proof cases
    case same
    then show ?thesis by simp
  next
    case removed
    have e: "e \<in> set (all_entries d)" "eid e = s"
      using entry_of_SomeD [OF removed(1)] by auto
    then have ed: "e \<in> set (walks [] (detached d))"
      using s by (auto simp: all_entries_def doc_entries_def)
    then have "ce \<in> set (walks [] (detached d))"
      by (rule chordContainerFor_entry) (rule removed(2))
    then have "eid ce \<notin> eid ` set (walks [] (document d))"
      using wf by (auto simp: wf_dom_def all_entries_def)
    then have "\<forall>m\<in>set (forest_elems (document d)). nid m \<notin> {eid ce}"
      using walks_ids [of "[]" "document d"] by (metis image_eqI list.set_map singletonD)
    then have "cut {eid ce} (document d) = document d"
      by (rule cut_id)
    then show ?thesis
      by (simp add: removed(3) document_remove_node [OF wf])
  qed
qed

lemma wf_purge_step: "wf_dom d \<Longrightarrow> wf_dom (purge_step h b s d)"
  using purge_step_cases [of h b s d] wf_remove_node [of d] by auto

lemma blocked_names_doc:
  "e \<in> set (blocked_names h b d) \<longleftrightarrow>
     e \<in> set (doc_entries d) \<and> is_span_cbg1qdk (snd e) \<and> isTargetSpan h b (snd e)"
  by (auto simp: blocked_names_def)

lemma container_doc:
  "e \<in> set (doc_entries d) \<Longrightarrow> chordContainerFor e = Some c \<Longrightarrow> c \<in> set (doc_entries d)"
  unfolding doc_entries_def by (rule chordContainerFor_entry)

lemma not_clearE:
  assumes "\<not> clear R y"
  obtains m where "m \<in> set (snd y # fst y)" "is_elem R m"
  using assms unfolding clear_def by blast

lemma apart_clear:
  assumes wf: "wf_dom d" and apart: "blocks_apart h b d"
    and e: "e \<in> set (blocked_names h b d)" "chordContainerFor e = Some c"
    and R: "R \<subseteq> eid ` set (target_containers h b d)"
    and c: "clear R c"
    and y: "y \<in> set (walk (fst c) (snd c))"
  shows "clear R y"
proof (rule ccontr)
  assume "\<not> clear R y"
  then obtain m where m: "m \<in> set (snd y # fst y)" "is_elem R m"
    by (rule not_clearE)
  have cd: "c \<in> set (doc_entries d)"
    using e container_doc by (simp add: blocked_names_doc) blast
  have mc: "m \<notin> set (snd c # fst c)"
    using c m(2) by (auto simp: clear_def)
  then obtain am where am: "(am, m) \<in> set (walk (fst c) (snd c))"
    using walk_under [OF y m(1)] by auto
  have "(am, m) \<noteq> c"
    using mc by auto
  then have desc: "(am, m) \<in> set (descendants c)"
    using am doc_walk_head [OF cd] by simp
  have "(am, m) \<in> set (all_entries d)"
    using am doc_walk_sub [OF cd] doc_entries_all [of d] by blast
  then have "eid (am, m) \<in> R"
    using m(2) entry_is_elem [of "(am, m)" d R] by simp
  then have "eid (am, m) \<in> eid ` set (target_containers h b d)"
    using R by blast
  moreover have "c \<in> set (List.map_filter chordContainerFor (blocked_names h b d))"
    using e by (auto simp: set_map_filter)
  ultimately show False
    using apart desc unfolding blocks_apart_def list_all_iff by blast
qed

lemma names_inside_clear:
  assumes wf: "wf_dom d"
    and L: "querySelectorAll (\<lambda>e. is_span_cbg1qdk (snd e)) d Document = L1 @ s # L2"
    and x: "x \<in> set (doc_entries d)" "is_span_cbg1qdk (snd x)" "eid x = s"
    and cl: "clear (removed_for h b d L1) x"
    and y: "y \<in> set (walk (fst x) (snd x))"
  shows "clear (removed_for h b d L1) y"
proof (rule ccontr)
  let ?R = "removed_for h b d L1"
  assume "\<not> clear ?R y"
  then obtain m where m: "m \<in> set (snd y # fst y)" "is_elem ?R m"
    by (rule not_clearE)
  have mx: "m \<notin> set (snd x # fst x)"
    using cl m(2) by (auto simp: clear_def)
  then obtain am where am: "(am, m) \<in> set (walk (fst x) (snd x))"
    using walk_under [OF y m(1)] by auto
  have amd: "(am, m) \<in> set (doc_entries d)"
    using am doc_walk_sub [OF x(1)] by blast
  then have "eid (am, m) \<in> ?R"
    using m(2) entry_is_elem [of "(am, m)" d ?R] doc_entries_all [of d] by auto
  then obtain e c where e: "e \<in> set (blocked_names h b d)" "eid e \<in> set L1"
    "chordContainerFor e = Some c" "eid c = eid (am, m)"
    unfolding removed_for_def by force
  have ed: "e \<in> set (doc_entries d)" and es: "is_span_cbg1qdk (snd e)"
    using e(1) by (simp_all add: blocked_names_doc)
  have cd: "c \<in> set (doc_entries d)"
    by (rule container_doc [OF ed e(3)])
  have ceq: "c = (am, m)"
    by (rule doc_same_entry [OF wf cd amd e(4)])
  have "snd c \<in> set (snd e # fst e)"
    using chordContainerFor_chain [OF e(3)] by auto
  then have "e \<in> set (walk (fst c) (snd c))"
    by (rule under_container [OF wf ed cd])
  then have em: "e \<in> set (walk am m)"
    using ceq by simp
  then have "e \<in> set (walk (fst x) (snd x))"
    using walk_trans [of e "(am, m)" "fst x" "snd x"] am by simp
  moreover have "e \<noteq> x"
    using walk_chain [OF em] mx by auto
  ultimately have "e \<in> set (descendants x)"
    using doc_walk_head [OF x(1)] by simp
  then have "eid e \<notin> set L1"
    by (rule inside_later [OF wf L x])
  then show False
    using e(2) by simp
qed

lemma removed_for_single:
  assumes wf: "wf_dom d" and x: "x \<in> set (doc_entries d)" "eid x = s"
  shows "removed_for h b d [s] =
     (if is_span_cbg1qdk (snd x) \<and> isTargetSpan h b (snd x)
      then (case chordContainerFor x of
              None \<Rightarrow> {}
            | Some c \<Rightarrow> if isChordBlock c then {eid c} else {})
      else {})"
proof -
  have only: "e = x" if "e \<in> set (blocked_names h b d)" "eid e = s" for e
    using doc_same_entry [OF wf _ x(1), of e] that x(2) by (simp add: blocked_names_doc)
  have "removed_for h b d [s] =
     {eid c | c. x \<in> set (blocked_names h b d) \<and> chordContainerFor x = Some c \<and> isChordBlock c}"
    (is "?A = ?B")
  proof
    show "?A \<subseteq> ?B"
      unfolding removed_for_def using only by fastforce
    show "?B \<subseteq> ?A"
      unfolding removed_for_def using x(2) by fastforce
  qed
  then show ?thesis
    using x(1) by (auto simp: blocked_names_doc split: option.splits)
qed

lemma prune_name_same:
  assumes wf: "wf_dom d"
    and L: "querySelectorAll (\<lambda>e. is_span_cbg1qdk (snd e)) d Document = L1 @ s # L2"
    and x: "x \<in> set (doc_entries d)" "is_span_cbg1qdk (snd x)" "eid x = s"
    and cl: "clear (removed_for h b d L1) x"
  shows "prune (removed_for h b d L1) (snd x) = snd x"
proof (rule prune_id, rule ballI)
  let ?R = "removed_for h b d L1"
  fix m assume "m \<in> set (elems (snd x))"
  then obtain y where y: "y \<in> set (walk (fst x) (snd x))" "snd y = m"
    using walk_elems [of "fst x" "snd x"] by (metis in_set_conv_nth length_map nth_map)
  have "clear ?R y"
    by (rule names_inside_clear [OF wf L x cl y(1)])
  then have "\<not> is_elem ?R (snd y)"
    by (simp add: clear_def)
  moreover have "y \<in> set (all_entries d)"
    using y(1) doc_walk_sub [OF x(1)] doc_entries_all [of d] by blast
  ultimately have "eid y \<notin> ?R"
    by (simp add: entry_is_elem)
  then show "nid m \<notin> ?R"
    using y(2) by (simp add: eid_def)
qed

lemma guard_same:
  assumes wf: "wf_dom d" and apart: "blocks_apart h b d"
    and e: "e \<in> set (blocked_names h b d)" "chordContainerFor e = Some c"
    and R: "R \<subseteq> eid ` set (target_containers h b d)"
    and c: "clear R c"
  shows "isChordBlock (prune_entry R c) = isChordBlock c"
proof -
  have cd: "c \<in> set (doc_entries d)"
    using e container_doc by (simp add: blocked_names_doc) blast
  have "clear R y" if "y \<in> set (descendants c)" for y
    using apart_clear [OF wf apart e R c, of y] that doc_walk_head [OF cd] by simp
  then have "filter (clear R) (descendants c) = descendants c"
    by simp
  then show ?thesis
    by (simp add: isChordBlock_def descendants_prune [OF c] list_ex_iff)
qed

lemma purge_step_closed:
  assumes wf0: "wf_dom d0" and apart: "blocks_apart h b d0"
    and L: "querySelectorAll (\<lambda>e. is_span_cbg1qdk (snd e)) d0 Document = L1 @ s # L2"
    and wf: "wf_dom d" and doc: "document d = cut (removed_for h b d0 L1) (document d0)"
  shows "document (purge_step h b s d) = cut (removed_for h b d0 (L1 @ [s])) (document d0)"
proof -
  let ?R = "removed_for h b d0 L1"
  have RT: "?R \<subseteq> eid ` set (target_containers h b d0)"
    by (rule removed_for_targets)
  have "s \<in> set (querySelectorAll (\<lambda>e. is_span_cbg1qdk (snd e)) d0 Document)"
    unfolding L by simp
  then obtain x where x: "x \<in> set (doc_entries d0)" "is_span_cbg1qdk (snd x)" "eid x = s"
    by (auto simp: querySelectorAll_def query_root_def)
  have ents: "doc_entries d = map (prune_entry ?R) (filter (clear ?R) (doc_entries d0))"
    using walks_prune [of "[]" ?R "document d0"] by (simp add: doc_entries_def doc)
  have single: "removed_for h b d0 [s] =
     (if isTargetSpan h b (snd x)
      then (case chordContainerFor x of
              None \<Rightarrow> {}
            | Some c \<Rightarrow> if isChordBlock c then {eid c} else {})
      else {})"
    using removed_for_single [OF wf0 x(1,3), of h b] x(2) by simp
  have goal_same: "document d = cut (removed_for h b d0 (L1 @ [s])) (document d0)"
    if "removed_for h b d0 [s] = {}"
    using that doc by (simp add: removed_for_append)
  show ?thesis
  proof (cases "clear ?R x")
    case True
    let ?x = "prune_entry ?R x"
    have same: "prune ?R (snd x) = snd x"
      by (rule prune_name_same [OF wf0 L x True])
    have "?x \<in> set (all_entries d)"
      using x(1) True ents doc_entries_all [of d] by auto
    then have "entry_of d (eid ?x) = Some ?x"
      by (rule entry_of_wf [OF wf])
    then have step: "purge_step h b s d = purge_span h b d ?x"
      using x(3) by (simp add: purge_step_def)
    show ?thesis
    proof (cases "isTargetSpan h b (snd x)")
      case False
      then show ?thesis
        using goal_same single by (simp add: step purge_span_def same)
    next
      case target: True
      show ?thesis
      proof (cases "chordContainerFor x")
        case None
        then show ?thesis
          using goal_same single target
          by (simp add: step purge_span_def same chordContainerFor_prune)
      next
        case (Some c)
        have xb: "x \<in> set (blocked_names h b d0)"
          using x target by (simp add: blocked_names_doc)
        have cc: "clear ?R c"
          by (rule chordContainerFor_clear [OF Some True])
        have guard: "isChordBlock (prune_entry ?R c) = isChordBlock c"
          by (rule guard_same [OF wf0 apart xb Some RT cc])
        show ?thesis
        proof (cases "isChordBlock c")
          case False
          then show ?thesis
            using goal_same single target Some guard
            by (simp add: step purge_span_def same chordContainerFor_prune)
        next
          case block: True
          have "purge_step h b s d = remove_node (eid c) d"
            using target Some guard block
            by (simp add: step purge_span_def same chordContainerFor_prune)
          then have "document (purge_step h b s d) = cut {eid c} (cut ?R (document d0))"
            by (simp add: document_remove_node [OF wf] doc)
          moreover have "removed_for h b d0 (L1 @ [s]) = ?R \<union> {eid c}"
            using single target Some block by (simp add: removed_for_append)
          ultimately show ?thesis
            by (simp add: cut_cut)
        qed
      qed
    qed
  next
    case False
    have "s \<notin> eid ` set (doc_entries d)"
    proof
      assume "s \<in> eid ` set (doc_entries d)"
      then obtain y where y: "y \<in> set (doc_entries d0)" "clear ?R y" "eid y = s"
        unfolding ents by auto
      then have "y = x"
        using doc_same_entry [OF wf0 y(1) x(1)] x(3) by simp
      then show False
        using y(2) False by simp
    qed
    then have keep: "document (purge_step h b s d) = cut ?R (document d0)"
      using detached_step [OF wf] doc by simp
    show ?thesis
    proof (cases "removed_for h b d0 [s] = {}")
      case True
      then show ?thesis
        using keep by (simp add: removed_for_append)
    next
      case nonempty: False
      then obtain c where c: "isTargetSpan h b (snd x)" "chordContainerFor x = Some c"
        "isChordBlock c" "removed_for h b d0 [s] = {eid c}"
        unfolding single by (auto split: if_splits option.splits)
      have xb: "x \<in> set (blocked_names h b d0)"
        using x c(1) by (simp add: blocked_names_doc)
      have cd: "c \<in> set (doc_entries d0)"
        by (rule container_doc [OF x(1) c(2)])
      have "snd c \<in> set (snd x # fst x)"
        using chordContainerFor_chain [OF c(2)] by auto
      then have "x \<in> set (walk (fst c) (snd c))"
        by (rule under_container [OF wf0 x(1) cd])
      then have nc: "\<not> clear ?R c"
        using apart_clear [OF wf0 apart xb c(2) RT] False by blast
      have "\<forall>e\<in>set (walks [] (document d0)). eid e = eid c \<longrightarrow> \<not> clear ?R e"
      proof (intro ballI impI)
        fix e assume "e \<in> set (walks [] (document d0))" "eid e = eid c"
        then have "e = c"
          using doc_same_entry [OF wf0 _ cd, of e] by (simp add: doc_entries_def)
        then show "\<not> clear ?R e"
          using nc by simp
      qed
      then have "cut (insert (eid c) ?R) (document d0) = cut ?R (document d0)"
        by (rule cut_covered)
      then show ?thesis
        using keep c(4) by (simp add: removed_for_append)
    qed
  qed
qed

lemma purge_fold_closed:
  assumes wf0: "wf_dom d0" and apart: "blocks_apart h b d0"
  shows "querySelectorAll (\<lambda>e. is_span_cbg1qdk (snd e)) d0 Document = L1 @ L2 \<Longrightarrow>
     wf_dom d \<Longrightarrow> document d = cut (removed_for h b d0 L1) (document d0) \<Longrightarrow>
     document (fold (purge_step h b) L2 d) = cut (removed_for h b d0 (L1 @ L2)) (document d0)"
proof (induction L2 arbitrary: L1 d)
  case Nil
  then show ?case by simp
next
  case (Cons s L2)
  have a: "querySelectorAll (\<lambda>e. is_span_cbg1qdk (snd e)) d0 Document = (L1 @ [s]) @ L2"
    using Cons.prems(1) by simp
  have b: "wf_dom (purge_step h b s d)"
    by (rule wf_purge_step [OF Cons.prems(2)])
  have c: "document (purge_step h b s d) = cut (removed_for h b d0 (L1 @ [s])) (document d0)"
    by (rule purge_step_closed [OF wf0 apart Cons.prems])
  show ?case
    using Cons.IH [OF a b c] by simp
qed

text \<open>
  C1, as amended. On a page where no two elements share an identity and no
  container to be removed lies strictly inside the container of a blocked chord
  name, \<open>purge\<close> on the document removes exactly the containers (the nearest
  \<open>div.deu1fhf\<close> above, or else the nearest \<open>div\<close>) of the \<open>span.cbg1qdk\<close>
  whose trimmed and normalised text is in the list and whose container passes
  the chord-diagram guard, all read on the page before \<open>purge\<close>; what is left of
  the document is the document without these subtrees, everything else in place.
\<close>

theorem purge_removes_blocked_blocks:
  assumes "wf_dom d" and "blocks_apart h blocked d"
  shows "document (purge h blocked Document d)
           = cut (eid ` set (target_containers h blocked d)) (document d)"
proof -
  let ?L = "querySelectorAll (\<lambda>e. is_span_cbg1qdk (snd e)) d Document"
  have "removed_for h blocked d [] = {}"
    by (simp add: removed_for_def)
  moreover have "cut {} (document d) = document d"
    by (rule cut_id) simp
  ultimately have "document (fold (purge_step h blocked) ?L d)
      = cut (removed_for h blocked d ([] @ ?L)) (document d)"
    using assms by (intro purge_fold_closed) simp_all
  moreover have "eid ` set (blocked_names h blocked d) \<subseteq> set ?L"
    by (auto simp: blocked_names_def querySelectorAll_def query_root_def)
  ultimately show ?thesis
    by (simp add: purge_def removed_for_all)
qed

lemmas target_defs = target_containers_def blocked_names_def map_filter_simps

theorem purge_removes_blocked_blocks_witness:
  "wf_dom page_chords \<and> blocks_apart plain_host blockedChordsList page_chords
   \<and> map eid (target_containers plain_host blockedChordsList page_chords) = [20]
   \<and> document (purge plain_host blockedChordsList Document page_chords)
       = [Element 0 ''body'' [] []
           [Element 1 ''div'' [] [] [chord_block 10 [68, 55], chord_block 30 [65, 55]]]]"
proof -
  have a: "wf_dom page_chords"
    by (simp add: wf_dom_def page_chords_def query_defs page_defs)
  have t: "target_containers plain_host blockedChordsList page_chords =
     [([Element 1 ''div'' [] []
            [chord_block 10 [68, 55], chord_block 20 [67], chord_block 30 [65, 55]],
        Element 0 ''body'' [] []
          [Element 1 ''div'' [] []
            [chord_block 10 [68, 55], chord_block 20 [67], chord_block 30 [65, 55]]]],
       chord_block 20 [67])]"
    by (simp add: target_defs page_chords_def query_defs selector_defs purge_defs page_defs)
  have b: "blocks_apart plain_host blockedChordsList page_chords"
    unfolding blocks_apart_def t
    by (simp add: target_defs page_chords_def query_defs selector_defs purge_defs page_defs)
  have c: "cut (eid ` set (target_containers plain_host blockedChordsList page_chords))
             (document page_chords)
       = [Element 0 ''body'' [] []
           [Element 1 ''div'' [] [] [chord_block 10 [68, 55], chord_block 30 [65, 55]]]]"
    unfolding t by (simp add: page_chords_def cut_def is_elem_def eid_def page_defs)
  have t': "map eid (target_containers plain_host blockedChordsList page_chords) = [20]"
    unfolding t by (simp add: eid_def chord_block_def)
  show ?thesis
    using purge_removes_blocked_blocks [OF a b] a b c t' by simp
qed

text \<open>
  C1 as stated fails on \<open>page_nested_blocks\<close>: the inner block goes first and
  takes the only diagram with it, so the outer block, which passed the guard
  before, stays.
\<close>

theorem purge_keeps_emptied_outer_block:
  "document (purge plain_host blockedChordsList Document page_nested_blocks)
   \<noteq> cut (eid ` set (target_containers plain_host blockedChordsList page_nested_blocks))
         (document page_nested_blocks)"
proof -
  have a: "document (purge plain_host blockedChordsList Document page_nested_blocks)
     = [Element 0 ''body'' [] [] [Element 1 ''div'' [''deu1fhf''] [] [chord_name 2 [65]]]]"
    by (simp add: page_nested_blocks_def query_defs selector_defs purge_defs page_defs)
  have t: "map eid (target_containers plain_host blockedChordsList page_nested_blocks) = [10, 1]"
    by (simp add: target_defs page_nested_blocks_def query_defs selector_defs purge_defs page_defs)
  have "eid ` set (target_containers plain_host blockedChordsList page_nested_blocks) = {10, 1}"
    using t by (metis list.set_map list.simps(15) empty_set)
  then have b: "cut (eid ` set (target_containers plain_host blockedChordsList page_nested_blocks))
         (document page_nested_blocks) = [Element 0 ''body'' [] [] []]"
    by (simp add: page_nested_blocks_def cut_def is_elem_def page_defs)
  show ?thesis
    unfolding a b by (simp add: page_defs)
qed

subsection \<open>Moving a child to the end of its parent\<close>

lemma ids_Element: "ids (Element i t c a ks) = i # concat (map ids ks)"
  by (simp add: ids_def [abs_def] map_concat comp_def)

lemma ids_Text [simp]: "ids (Text s) = []"
  by (simp add: ids_def)

lemma is_elem_ids: "is_elem R k \<Longrightarrow> \<exists>i\<in>R. i \<in> set (ids k)"
  by (cases k) (auto simp: is_elem_def ids_Element)

lemma is_elem_single: "is_elem {i} k \<Longrightarrow> i \<in> set (ids k)"
  using is_elem_ids [of "{i}" k] by simp

lemma distinct_kids_same:
  "distinct (concat (map ids ks)) \<Longrightarrow> k \<in> set ks \<Longrightarrow> k' \<in> set ks \<Longrightarrow>
   i \<in> set (ids k) \<Longrightarrow> i \<in> set (ids k') \<Longrightarrow> k = k'"
  by (induction ks) auto

lemma distinct_kid: "distinct (concat (map ids ks)) \<Longrightarrow> k \<in> set ks \<Longrightarrow> distinct (ids k)"
  by (induction ks) auto

lemma distinct_kid_once:
  "distinct (concat (map ids ks)) \<Longrightarrow> k \<in> set ks \<Longrightarrow> i \<in> set (ids k) \<Longrightarrow>
   filter (\<lambda>k'. i \<in> set (ids k')) ks = [k]"
proof (induction ks)
  case Nil
  then show ?case by simp
next
  case (Cons k0 ks)
  show ?case
  proof (cases "i \<in> set (ids k0)")
    case True
    then have "\<forall>k'\<in>set ks. i \<notin> set (ids k')"
      using Cons.prems(1) by auto
    then have "filter (\<lambda>k'. i \<in> set (ids k')) ks = []"
      by (simp add: filter_empty_conv)
    moreover have "k = k0"
      using Cons.prems True distinct_kids_same [of "k0 # ks" k k0 i] by simp
    ultimately show ?thesis
      using True by simp
  next
    case False
    then show ?thesis
      using Cons by auto
  qed
qed

lemma prune_absent: "i \<notin> set (ids n) \<Longrightarrow> prune {i} n = n"
  by (rule prune_id) (auto simp: ids_def)

lemma graft_absent: "p \<notin> set (ids n) \<Longrightarrow> graft p y n = n"
proof (induction n)
  case (Element i t c a ks)
  then have "map (graft p y) ks = ks"
    by (intro map_idI) (auto simp: ids_Element)
  then show ?case
    using Element.prems by (simp add: ids_Element)
qed simp

lemma rearrange_absent: "p \<notin> set (ids n) \<Longrightarrow> rearrange p f n = n"
proof (induction n)
  case (Element i t c a ks)
  then have "map (rearrange p f) ks = ks"
    by (intro map_idI) (auto simp: ids_Element)
  then show ?case
    using Element.prems by (simp add: ids_Element)
qed simp

lemma not_is_elem_absent: "i \<notin> set (ids n) \<Longrightarrow> \<not> is_elem {i} n"
  using is_elem_single by blast

lemma elems_self: "elems (Element i t c a ks) = Element i t c a ks # forest_elems ks"
  by (simp add: forest_elems_def)

lemma elems_kid: "m \<in> set (elems n) \<Longrightarrow> k \<in> set (childNodes m) \<Longrightarrow> set (elems k) \<subseteq> set (elems n)"
proof (induction n)
  case (Element i t c a ks)
  show ?case
  proof (cases "m = Element i t c a ks")
    case True
    then show ?thesis
      using Element.prems(2) by auto
  next
    case False
    then obtain k0 where "k0 \<in> set ks" "m \<in> set (elems k0)"
      using Element.prems(1) by auto
    then show ?thesis
      using Element.IH [of k0] Element.prems(2) by auto
  qed
qed simp

lemma elems_in_ids: "m \<in> set (elems n) \<Longrightarrow> nid m \<in> set (ids n)"
  by (simp add: ids_def)

lemma elems_ids_sub: "m \<in> set (elems n) \<Longrightarrow> set (ids m) \<subseteq> set (ids n)"
proof (induction n)
  case (Element i t c a ks)
  show ?case
  proof (cases "m = Element i t c a ks")
    case True
    then show ?thesis by simp
  next
    case False
    then obtain k0 where "k0 \<in> set ks" "m \<in> set (elems k0)"
      using Element.prems by auto
    then show ?thesis
      using Element.IH [of k0] by (auto simp: ids_Element)
  qed
qed simp

lemma distinct_elems_same:
  "distinct (ids n) \<Longrightarrow> m \<in> set (elems n) \<Longrightarrow> m' \<in> set (elems n) \<Longrightarrow> nid m = nid m'
   \<Longrightarrow> m = m'"
  unfolding ids_def by (auto simp: distinct_map inj_on_def)

lemma distinct_sub: "m \<in> set (elems n) \<Longrightarrow> distinct (ids n) \<Longrightarrow> distinct (ids m)"
proof (induction n)
  case (Element i t c a ks)
  show ?case
  proof (cases "m = Element i t c a ks")
    case True
    then show ?thesis using Element.prems by simp
  next
    case False
    then obtain k0 where k0: "k0 \<in> set ks" "m \<in> set (elems k0)"
      using Element.prems by auto
    have "distinct (ids k0)"
      using Element.prems(2) k0(1) by (auto simp: ids_Element intro: distinct_kid)
    then show ?thesis
      using Element.IH [OF k0] by simp
  qed
qed simp

lemma move_in_parent:
  assumes d: "distinct (ids (Element p t c a ks))" and y: "y \<in> set ks" "is_elem {el} y"
  shows "graft p y (prune {el} (Element p t c a ks)) = rearrange p (to_end el) (Element p t c a ks)"
proof -
  have dk: "distinct (concat (map ids ks))" and pk: "p \<notin> set (concat (map ids ks))"
    using d by (simp_all add: ids_Element)
  have ely: "el \<in> set (ids y)"
    by (rule is_elem_single [OF y(2)])
  have other: "el \<notin> set (ids k)" if "k \<in> set ks" "k \<noteq> y" for k
    using distinct_kids_same [OF dk that(1) y(1), of el] ely that(2) by blast
  have is_y: "is_elem {el} k \<longleftrightarrow> k = y" if "k \<in> set ks" for k
    using other [OF that] is_elem_single [of el k] y(2) by blast
  have f1: "filter (is_elem {el}) ks = filter (\<lambda>k. el \<in> set (ids k)) ks"
    using is_y other ely by (intro filter_cong) auto
  have f2: "filter (is_elem {el}) ks = [y]"
    unfolding f1 by (rule distinct_kid_once [OF dk y(1) ely])
  have keep: "graft p y (prune {el} k) = k" if "k \<in> set ks" "\<not> is_elem {el} k" for k
  proof -
    have "k \<noteq> y" using that(2) y(2) by blast
    then have "prune {el} k = k"
      using other [OF that(1)] by (simp add: prune_absent)
    moreover have "p \<notin> set (ids k)"
      using pk that(1) by auto
    ultimately show ?thesis
      by (simp add: graft_absent)
  qed
  have "map (\<lambda>k. graft p y (prune {el} k)) (filter (\<lambda>k. \<not> is_elem {el} k) ks)
          = filter (\<lambda>k. \<not> is_elem {el} k) ks"
    by (intro map_idI) (simp add: keep)
  then show ?thesis
    by (simp add: to_end_def f2 comp_def)
qed

lemma move_child:
  assumes "distinct (ids n)" "Element p t c a ks \<in> set (elems n)" "y \<in> set ks" "is_elem {el} y"
  shows "graft p y (prune {el} n) = rearrange p (to_end el) n \<and> \<not> is_elem {el} n"
  using assms
proof (induction n)
  case (Element i t' c' a' ks')
  let ?n = "Element i t' c' a' ks'"
  let ?pn = "Element p t c a ks"
  have dk: "distinct (concat (map ids ks'))" and ik: "i \<notin> set (concat (map ids ks'))"
    using Element.prems(1) by (simp_all add: ids_Element)
  have el_pn: "el \<in> set (ids ?pn)" and el_p: "el \<noteq> p"
  proof -
    have "el \<in> set (ids y)" by (rule is_elem_single [OF Element.prems(4)])
    then show "el \<in> set (ids ?pn)"
      using Element.prems(3) by (auto simp: ids_Element)
    have "distinct (ids ?pn)"
      by (rule distinct_sub [OF Element.prems(2,1)])
    then show "el \<noteq> p"
      using \<open>el \<in> set (ids y)\<close> Element.prems(3) by (auto simp: ids_Element)
  qed
  show ?case
  proof (cases "?pn = ?n")
    case True
    then have "graft p y (prune {el} ?n) = rearrange p (to_end el) ?n"
      using move_in_parent [of p t c a ks y el] Element.prems by simp
    moreover have "\<not> is_elem {el} ?n"
      using True el_p by (simp add: is_elem_def)
    ultimately show ?thesis by simp
  next
    case False
    then obtain k0 where k0: "k0 \<in> set ks'" "?pn \<in> set (elems k0)"
      using Element.prems(2) by auto
    have ip: "i \<noteq> p"
      using ik k0 elems_in_ids [OF k0(2)] by auto
    have el_k0: "el \<in> set (ids k0)"
      using el_pn elems_ids_sub [OF k0(2)] by blast
    have iel: "i \<noteq> el"
      using ik k0(1) el_k0 by auto
    have p_k0: "p \<in> set (ids k0)"
      using elems_in_ids [OF k0(2)] by simp
    have ih: "graft p y (prune {el} k0) = rearrange p (to_end el) k0 \<and> \<not> is_elem {el} k0"
      using Element.IH [OF k0(1) distinct_kid [OF dk k0(1)] k0(2) Element.prems(3,4)] .
    have other: "el \<notin> set (ids k) \<and> p \<notin> set (ids k)" if "k \<in> set ks'" "k \<noteq> k0" for k
      using distinct_kids_same [OF dk that(1) k0(1)] el_k0 p_k0 that(2) by blast
    have each: "graft p y (prune {el} k) = rearrange p (to_end el) k \<and> \<not> is_elem {el} k"
      if "k \<in> set ks'" for k
    proof (cases "k = k0")
      case True
      then show ?thesis using ih by simp
    next
      case False
      then show ?thesis
        using other [OF that False]
        by (simp add: prune_absent graft_absent rearrange_absent not_is_elem_absent)
    qed
    have "filter (\<lambda>k. \<not> is_elem {el} k) ks' = ks'"
      using each by simp
    moreover have "map (\<lambda>k. graft p y (prune {el} k)) ks' = map (rearrange p (to_end el)) ks'"
      using each by simp
    ultimately have "graft p y (prune {el} ?n) = rearrange p (to_end el) ?n"
      using ip by (simp add: comp_def)
    moreover have "\<not> is_elem {el} ?n"
      using iel by (simp add: is_elem_def)
    ultimately show ?thesis by simp
  qed
qed simp

lemma move_child_forest:
  assumes dk: "distinct (concat (map ids ns))"
    and pn: "Element p t c a ks \<in> set (forest_elems ns)" and y: "y \<in> set ks" "is_elem {el} y"
    and k: "k \<in> set ns"
  shows "graft p y (prune {el} k) = rearrange p (to_end el) k \<and> \<not> is_elem {el} k"
proof -
  let ?pn = "Element p t c a ks"
  obtain k0 where k0: "k0 \<in> set ns" "?pn \<in> set (elems k0)"
    using pn by (auto simp: forest_elems_def)
  have p_k0: "p \<in> set (ids k0)"
    using elems_in_ids [OF k0(2)] by simp
  have "el \<in> set (ids y)" by (rule is_elem_single [OF y(2)])
  then have "el \<in> set (ids ?pn)"
    using y(1) by (auto simp: ids_Element)
  then have el_k0: "el \<in> set (ids k0)"
    using elems_ids_sub [OF k0(2)] by blast
  show ?thesis
  proof (cases "k = k0")
    case True
    then show ?thesis
      using move_child [OF distinct_kid [OF dk k0(1)] k0(2) y] by simp
  next
    case False
    then have "el \<notin> set (ids k) \<and> p \<notin> set (ids k)"
      using distinct_kids_same [OF dk k k0(1)] el_k0 p_k0 by blast
    then show ?thesis
      by (simp add: prune_absent graft_absent rearrange_absent not_is_elem_absent)
  qed
qed

lemma walk_longer: "e \<in> set (walk anc n) \<Longrightarrow> length anc \<le> length (fst e)"
proof (induction n arbitrary: anc)
  case (Element i t c a ks)
  then show ?case by fastforce
qed simp

lemma walk_kid:
  "e \<in> set (walk anc n) \<Longrightarrow> e \<noteq> (anc, n) \<Longrightarrow>
   \<exists>q rest. fst e = q # rest \<and> snd e \<in> set (childNodes q)"
proof (induction n arbitrary: anc)
  case (Element i t c a ks)
  let ?n = "Element i t c a ks"
  obtain k where k: "k \<in> set ks" "e \<in> set (walk (?n # anc) k)"
    using Element.prems by auto
  show ?case
  proof (cases "e = (?n # anc, k)")
    case True
    then show ?thesis using k(1) by simp
  next
    case False
    then show ?thesis
      using Element.IH [OF k] by blast
  qed
qed simp

lemma walks_kid:
  "e \<in> set (walks [] ns) \<Longrightarrow> fst e = q # rest \<Longrightarrow> snd e \<in> set (childNodes q)"
proof -
  assume e: "e \<in> set (walks [] ns)" and f: "fst e = q # rest"
  then obtain k where k: "k \<in> set ns" "e \<in> set (walk [] k)"
    by (auto simp: walks_def)
  have "e \<noteq> ([], k)" using f by auto
  from walk_kid [OF k(2) this] show ?thesis
    using f by auto
qed

lemma walks_snd_elems: "e \<in> set (walks anc ns) \<Longrightarrow> snd e \<in> set (forest_elems ns)"
  unfolding walks_elems [symmetric, of ns anc] by force

lemma all_entries_walks: "all_entries d = walks [] (document d @ detached d)"
  by (simp add: all_entries_def walks_def)

lemma wf_distinct_ids: "wf_dom d \<longleftrightarrow> distinct (concat (map ids (document d @ detached d)))"
proof -
  have "map eid (all_entries d) = concat (map ids (document d @ detached d))"
    unfolding all_entries_walks walks_ids
    by (simp add: forest_elems_def map_concat comp_def ids_def [abs_def])
  then show ?thesis
    by (simp add: wf_dom_def)
qed

lemma appendChild_child:
  assumes wf: "wf_dom d" and ee: "ee \<in> set (all_entries d)" "fst ee = pn # anc"
    "nid pn = p" "eid ee = el"
  shows "appendChild p el d = Done (rearranged p (to_end el) d)"
proof -
  let ?G = "document d @ detached d"
  have eeG: "ee \<in> set (walks [] ?G)"
    using ee(1) by (simp add: all_entries_walks)
  have pe: "(anc, pn) \<in> set (all_entries d)"
    using walks_parent [OF eeG ee(2)] by (simp add: all_entries_walks)
  have look_p: "entry_of d p = Some (anc, pn)"
    using entry_of_wf [OF wf pe] ee(3) by (simp add: eid_def)
  have look_el: "entry_of d el = Some ee"
    using entry_of_wf [OF wf ee(1)] ee(4) by simp
  obtain t c a ks where pnE: "pn = Element p t c a ks"
    using entry_Element [OF pe] ee(3) by auto
  have kid: "snd ee \<in> set ks"
    using walks_kid [OF eeG ee(2)] pnE by simp
  have isel: "is_elem {el} (snd ee)"
    using ee(1,4) by (simp add: entry_is_elem)
  have pnG: "pn \<in> set (forest_elems ?G)"
    using walks_snd_elems [of "(anc, pn)" "[]" ?G] pe by (simp add: all_entries_walks)
  have no_cycle: "el \<notin> set (map nid (pn # anc))"
  proof
    assume "el \<in> set (map nid (pn # anc))"
    then obtain m where m: "m \<in> set (pn # anc)" "nid m = el"
      by auto
    then obtain am where am: "(am, m) \<in> set (walks [] ?G)" "(anc, pn) \<in> set (walk am m)"
      using walks_under [of "(anc, pn)" ?G m] pe by (auto simp: all_entries_walks)
    have "(am, m) = ee"
      using wf_same_entry [OF wf _ ee(1), of "(am, m)"] am(1) m(2) ee(4)
      by (simp add: all_entries_walks eid_def)
    then have "(anc, pn) \<in> set (walk (pn # anc) (snd ee))"
      using am(2) ee(2) by (metis fst_conv snd_conv)
    then show False
      using walk_longer by fastforce
  qed
  have each: "graft p (snd ee) (prune {el} k) = rearrange p (to_end el) k \<and> \<not> is_elem {el} k"
    if "k \<in> set ?G" for k
    using move_child_forest [OF _ _ kid isel that, of p t c a] wf pnG pnE
    by (simp add: wf_distinct_ids)
  have part: "map (graft p (snd ee)) (cut {el} ns) = map (rearrange p (to_end el)) ns"
    if "set ns \<subseteq> set ?G" for ns
  proof -
    have "filter (\<lambda>k. \<not> is_elem {el} k) ns = ns"
      using each that by (simp add: subset_iff)
    moreover have "map (\<lambda>k. graft p (snd ee) (prune {el} k)) ns = map (rearrange p (to_end el)) ns"
      using each that by (simp add: subset_iff)
    ultimately show ?thesis
      by (simp add: cut_def comp_def)
  qed
  show ?thesis
    using no_cycle part [of "document d"] part [of "detached d"]
    by (simp add: appendChild_def look_p look_el rearranged_def)
qed

lemma walk_placed: "map placed (walk anc n) = node_placed (parent_id anc) n"
proof (induction n arbitrary: anc)
  case (Element i t c a ks)
  have "map (\<lambda>k. map placed (walk (Element i t c a ks # anc) k)) ks
          = map (node_placed (Some i)) ks"
    using Element by (simp add: parent_id_def)
  moreover have "placed (anc, Element i t c a ks) = (i, parent_id anc, t, c, a)"
    by (simp add: placed_def eid_def parentElement_def parent_id_def)
  ultimately show ?case
    by (simp add: map_concat comp_def cong: map_cong)
qed simp

lemma walks_placed: "map placed (walks anc ns) = concat (map (node_placed (parent_id anc)) ns)"
  by (simp add: walks_def map_concat comp_def walk_placed)

lemma mset_concat_map:
  "mset xs = mset ys \<Longrightarrow> mset (concat (map g xs)) = mset (concat (map g ys))"
proof -
  assume a: "mset xs = mset ys"
  have "mset (concat (map g zs)) = (\<Sum>z\<in>#mset zs. mset (g z))" for zs
    by (induction zs) simp_all
  then show ?thesis
    using a by simp
qed

lemma mset_concat_cong:
  "(\<And>k. k \<in> set ks \<Longrightarrow> mset (g (r k)) = mset (g k)) \<Longrightarrow>
   mset (concat (map g (map r ks))) = mset (concat (map g ks))"
  by (induction ks) simp_all

lemma rearrange_placed:
  assumes "\<And>ks. mset (f ks) = mset ks"
  shows "mset (node_placed par (rearrange p f n)) = mset (node_placed par n)"
proof (induction n arbitrary: par)
  case (Element i t c a ks)
  show ?case
  proof (cases "i = p")
    case True
    then show ?thesis
      using mset_concat_map [OF assms, of "node_placed (Some i)" ks] by simp
  next
    case False
    then show ?thesis
      using mset_concat_cong [of ks "node_placed (Some i)" "rearrange p f"] Element by simp
  qed
qed simp

lemma rearrange_forest_placed:
  assumes "\<And>ks. mset (f ks) = mset ks"
  shows "mset (map placed (walks [] (map (rearrange p f) ns))) = mset (map placed (walks [] ns))"
  unfolding walks_placed
  by (rule mset_concat_cong) (rule rearrange_placed [OF assms])

lemma rearranged_placed:
  assumes "\<And>ks. mset (f ks) = mset ks"
  shows "mset (map placed (doc_entries (rearranged p f d))) = mset (map placed (doc_entries d))"
    and "mset (map placed (all_entries (rearranged p f d))) = mset (map placed (all_entries d))"
  using rearrange_forest_placed [OF assms, of p]
  by (simp_all add: doc_entries_def all_entries_def rearranged_def)

lemma eid_placed: "map eid es = map fst (map placed es)"
  by (simp add: placed_def)

lemma wf_placed:
  assumes "mset (map placed (all_entries d')) = mset (map placed (all_entries d))" "wf_dom d"
  shows "wf_dom d'"
proof -
  have "mset (map eid (all_entries d')) = mset (map eid (all_entries d))"
    unfolding eid_placed using assms(1) by (metis mset_map)
  then show ?thesis
    using assms(2) unfolding wf_dom_def by (metis mset_eq_imp_distinct_iff)
qed

lemma mset_to_end: "mset (to_end el ks) = mset ks"
  by (simp add: to_end_def)

lemma same_elements_refl: "same_elements d d"
  by (simp add: same_elements_def)

lemma same_elements_trans: "same_elements d d1 \<Longrightarrow> same_elements d1 d2 \<Longrightarrow> same_elements d d2"
  by (simp add: same_elements_def)

lemma same_elements_wf: "same_elements d d' \<Longrightarrow> wf_dom d \<Longrightarrow> wf_dom d'"
  unfolding same_elements_def using wf_placed by blast

lemma child_of_placed:
  "child_of d p el \<longleftrightarrow> (\<exists>y\<in>set (map placed (all_entries d)). fst y = el \<and> fst (snd y) = Some p)"
  by (auto simp: child_of_def placed_def)

lemma same_elements_child: "same_elements d d' \<Longrightarrow> child_of d p el \<Longrightarrow> child_of d' p el"
proof -
  assume a: "same_elements d d'" and b: "child_of d p el"
  have "set (map placed (all_entries d')) = set (map placed (all_entries d))"
    using a unfolding same_elements_def by (metis set_mset_mset)
  then show ?thesis
    using b unfolding child_of_placed by simp
qed

lemma appendChild_same:
  assumes "wf_dom d" "child_of d p el"
  shows "\<exists>d'. appendChild p el d = Done d' \<and> same_elements d d'"
proof -
  obtain ee where ee: "ee \<in> set (all_entries d)" "eid ee = el" "parentElement ee = Some p"
    using assms(2) unfolding child_of_def by blast
  then obtain pn anc where pa: "fst ee = pn # anc" "nid pn = p"
    by (auto simp: parentElement_def split: list.splits)
  have "appendChild p el d = Done (rearranged p (to_end el) d)"
    by (rule appendChild_child [OF assms(1) ee(1) pa ee(2)])
  moreover have "same_elements d (rearranged p (to_end el) d)"
    unfolding same_elements_def using rearranged_placed [of "to_end el" p d]
    by (simp add: mset_to_end)
  ultimately show ?thesis by blast
qed

lemma append_all_same:
  "wf_dom d \<Longrightarrow> \<forall>el\<in>set els. child_of d p el \<Longrightarrow>
   \<exists>d'. append_all p els d = Done d' \<and> same_elements d d'"
proof (induction els arbitrary: d)
  case Nil
  then show ?case by (simp add: same_elements_refl)
next
  case (Cons el els)
  obtain d1 where d1: "appendChild p el d = Done d1" "same_elements d d1"
    using appendChild_same [OF Cons.prems(1), of p el] Cons.prems(2) by auto
  have "wf_dom d1"
    by (rule same_elements_wf [OF d1(2) Cons.prems(1)])
  moreover have "\<forall>el\<in>set els. child_of d1 p el"
    using Cons.prems(2) same_elements_child [OF d1(2)] by simp
  ultimately obtain d2 where d2: "append_all p els d1 = Done d2" "same_elements d1 d2"
    using Cons.IH by blast
  show ?case
    using d1 d2 same_elements_trans by (intro exI [of _ d2]) auto
qed

lemma set_insort_by: "set (insort_by cmp y ys) = insert y (set ys)"
  by (induction ys) auto

lemma set_sort_by: "set (sort_by cmp ys) = set ys"
  unfolding sort_by_def by (induction ys) (simp_all add: set_insort_by)

lemma sort_groups_same:
  "wf_dom d \<Longrightarrow> \<forall>g\<in>set gs. \<forall>el\<in>set (snd g). child_of d (fst g) el \<Longrightarrow>
   \<exists>d'. sort_groups h gs d = Done d' \<and> same_elements d d'"
proof (induction gs arbitrary: d)
  case Nil
  then show ?case by (simp add: same_elements_refl)
next
  case (Cons g gs)
  obtain p l where g: "g = (p, l)" by (cases g)
  have "\<forall>el\<in>set (sort_group h d l). child_of d p el"
    using Cons.prems(2) by (simp add: g sort_group_def set_sort_by)
  then obtain d1 where d1: "append_all p (sort_group h d l) d = Done d1" "same_elements d d1"
    using append_all_same [OF Cons.prems(1)] by blast
  have "wf_dom d1"
    by (rule same_elements_wf [OF d1(2) Cons.prems(1)])
  moreover have "\<forall>g\<in>set gs. \<forall>el\<in>set (snd g). child_of d1 (fst g) el"
    using Cons.prems(2) same_elements_child [OF d1(2)] by simp
  ultimately obtain d2 where d2: "sort_groups h gs d1 = Done d2" "same_elements d1 d2"
    using Cons.IH by blast
  show ?case
    using d1 d2 same_elements_trans by (intro exI [of _ d2]) (auto simp: g)
qed

lemma byParent_push_children:
  "\<forall>g\<in>set m. \<forall>el\<in>set (snd g). Q (fst g) el \<Longrightarrow> Q p b \<Longrightarrow>
   \<forall>g\<in>set (byParent_push p b m). \<forall>el\<in>set (snd g). Q (fst g) el"
proof (induction m)
  case Nil
  then show ?case by simp
next
  case (Cons g m)
  obtain q l where g: "g = (q, l)" by (cases g)
  show ?case
  proof (cases "q = p")
    case True
    then show ?thesis
      using Cons.prems by (auto simp: g)
  next
    case False
    then show ?thesis
      using Cons by (auto simp: g)
  qed
qed

lemma group_fold_children:
  "\<forall>g\<in>set m. \<forall>el\<in>set (snd g). child_of d (fst g) el \<Longrightarrow> set bs \<subseteq> set (all_entries d) \<Longrightarrow>
   \<forall>g\<in>set (fold (\<lambda>b m. case parentElement b of None \<Rightarrow> m
                              | Some p \<Rightarrow> byParent_push p (eid b) m) bs m).
      \<forall>el\<in>set (snd g). child_of d (fst g) el"
proof (induction bs arbitrary: m)
  case Nil
  then show ?case by simp
next
  case (Cons b bs)
  show ?case
  proof (cases "parentElement b")
    case None
    then show ?thesis
      using Cons by simp
  next
    case (Some p)
    have "child_of d p (eid b)"
      using Cons.prems(2) Some unfolding child_of_def by auto
    then have "\<forall>g\<in>set (byParent_push p (eid b) m). \<forall>el\<in>set (snd g). child_of d (fst g) el"
      using byParent_push_children [of m "child_of d"] Cons.prems(1) by blast
    then show ?thesis
      using Cons.IH [of "byParent_push p (eid b) m"] Cons.prems(2) Some by simp
  qed
qed

lemma group_blocks_children:
  "set bs \<subseteq> set (all_entries d) \<Longrightarrow>
   \<forall>g\<in>set (group_blocks bs). \<forall>el\<in>set (snd g). child_of d (fst g) el"
  unfolding group_blocks_def by (rule group_fold_children) simp_all

text \<open>
  C3. \<open>sortChordBlocks\<close> only reorders. On every page (no two elements share
  an identity) it ends without an exception, and the elements of the document
  after it are those before it, each with the parent element it had: none is
  removed, none is created, none changes its parent. This holds for every element,
  so for the chord blocks.
\<close>

theorem sortChordBlocks_only_reorders:
  assumes "wf_dom d"
  shows "\<exists>d'. sortChordBlocks h d = Done d'
           \<and> mset (map placed (doc_entries d')) = mset (map placed (doc_entries d))"
proof -
  have "set (chord_blocks d) \<subseteq> set (all_entries d)"
    using doc_entries_all [of d] by (auto simp: chord_blocks_def)
  then have "\<forall>g\<in>set (group_blocks (chord_blocks d)). \<forall>el\<in>set (snd g). child_of d (fst g) el"
    by (rule group_blocks_children)
  then obtain d' where "sort_groups h (group_blocks (chord_blocks d)) d = Done d'"
    "same_elements d d'"
    using sort_groups_same [OF assms] by blast
  then show ?thesis
    using same_elements_refl [of d]
    by (auto simp: sortChordBlocks_def Let_def same_elements_def)
qed

lemmas sort_defs =
  sortChordBlocks_def chord_blocks_def group_blocks_def parentElement_def sort_group_def
  sort_by_def key_of_def chordKey_def replaceAll_def appendChild_def cut_def is_elem_def
  isChordBlock_def normalize_def trim_def isWhiteSpace_def plain_host_def toUpperASCII_def
  str_guitar

lemma sorted_page_chords:
  "sortChordBlocks plain_host page_chords =
     Done (page_chords\<lparr>document :=
       [Element 0 ''body'' [] []
         [Element 1 ''div'' [] []
           [chord_block 30 [65, 55], chord_block 20 [67], chord_block 10 [68, 55]]]]\<rparr>)"
  by (simp add: page_chords_def Let_def query_defs selector_defs sort_defs page_defs)

theorem sortChordBlocks_only_reorders_witness:
  "wf_dom page_chords
   \<and> (\<exists>d'. sortChordBlocks plain_host page_chords = Done d'
         \<and> d' \<noteq> page_chords
         \<and> mset (map placed (doc_entries d')) = mset (map placed (doc_entries page_chords)))"
proof -
  have a: "wf_dom page_chords"
    by (simp add: wf_dom_def page_chords_def query_defs page_defs)
  have b: "sortChordBlocks plain_host page_chords \<noteq> Done page_chords"
    unfolding sorted_page_chords by (simp add: page_chords_def page_defs parsed_def)
  show ?thesis
    using sortChordBlocks_only_reorders [OF a, of plain_host] a b by auto
qed

subsection \<open>Insertion sort\<close>

lemma sorted_insort_by:
  assumes tot: "\<forall>x\<in>A. \<forall>y\<in>A. cmp x y \<le> 0 \<or> cmp y x \<le> 0"
    and tr: "\<forall>x\<in>A. \<forall>y\<in>A. \<forall>z\<in>A. cmp x y \<le> 0 \<and> cmp y z \<le> 0 \<longrightarrow> cmp x z \<le> 0"
  shows "x \<in> A \<Longrightarrow> set ys \<subseteq> A \<Longrightarrow> sorted_wrt (\<lambda>a b. cmp a b \<le> 0) ys \<Longrightarrow>
         sorted_wrt (\<lambda>a b. cmp a b \<le> (0::int)) (insort_by cmp x ys)"
proof (induction ys)
  case Nil
  then show ?case by simp
next
  case (Cons y ys)
  show ?case
  proof (cases "cmp x y \<le> 0")
    case True
    have "cmp x z \<le> 0" if z: "z \<in> set ys" for z
    proof -
      have "cmp y z \<le> 0"
        using Cons.prems(3) z by simp
      moreover have "y \<in> A" "z \<in> A"
        using Cons.prems(2) z by auto
      ultimately show ?thesis
        using tr True Cons.prems(1) by blast
    qed
    then have "\<forall>z\<in>set ys. cmp x z \<le> 0"
      by blast
    then show ?thesis
      using True Cons.prems by simp
  next
    case False
    then have yx: "cmp y x \<le> 0"
      using tot Cons.prems by auto
    have "sorted_wrt (\<lambda>a b. cmp a b \<le> 0) (insort_by cmp x ys)"
      using Cons by simp
    then show ?thesis
      using False yx Cons.prems by (auto simp: set_insort_by)
  qed
qed

lemma sorted_sort_by:
  assumes tot: "\<forall>x\<in>set xs. \<forall>y\<in>set xs. cmp x y \<le> 0 \<or> cmp y x \<le> 0"
    and tr: "\<forall>x\<in>set xs. \<forall>y\<in>set xs. \<forall>z\<in>set xs. cmp x y \<le> 0 \<and> cmp y z \<le> 0 \<longrightarrow> cmp x z \<le> 0"
  shows "sorted_wrt (\<lambda>a b. cmp a b \<le> (0::int)) (sort_by cmp xs)"
proof -
  have "set ys \<subseteq> set xs \<Longrightarrow> sorted_wrt (\<lambda>a b. cmp a b \<le> 0) (foldr (insort_by cmp) ys [])" for ys
  proof (induction ys)
    case Nil
    then show ?case by simp
  next
    case (Cons y ys)
    have s: "set (foldr (insort_by cmp) ys []) = set ys"
      using set_sort_by [of cmp ys] by (simp add: sort_by_def)
    show ?case
      using Cons sorted_insort_by [OF tot tr, of y "foldr (insort_by cmp) ys []"] s
      by simp
  qed
  then show ?thesis
    by (simp add: sort_by_def)
qed

lemma distinct_insort_by: "distinct (insort_by cmp x ys) \<longleftrightarrow> x \<notin> set ys \<and> distinct ys"
  by (induction ys) (auto simp: set_insort_by)

lemma distinct_sort_by: "distinct (sort_by cmp xs) \<longleftrightarrow> distinct xs"
proof -
  have "distinct (foldr (insort_by cmp) ys []) \<longleftrightarrow> distinct ys" for ys
  proof (induction ys)
    case Nil
    then show ?case by simp
  next
    case (Cons y ys)
    have s: "set (foldr (insort_by cmp) ys []) = set ys"
      using set_sort_by [of cmp ys] by (simp add: sort_by_def)
    show ?case
      using Cons by (simp add: distinct_insort_by s)
  qed
  then show ?thesis
    by (simp add: sort_by_def)
qed

subsection \<open>Moving several children to the end\<close>

lemma is_elem_Cons: "is_elem (set (i # s)) k \<longleftrightarrow> is_elem {i} k \<or> is_elem (set s) k"
  by (cases k) (simp_all add: is_elem_def)

lemma is_elem_two: "is_elem {i} k \<Longrightarrow> is_elem {j} k \<Longrightarrow> i = j"
  by (cases k) (simp_all add: is_elem_def)

lemma fold_to_end:
  "distinct s \<Longrightarrow>
   fold to_end s ks = filter (\<lambda>k. \<not> is_elem (set s) k) ks
                        @ concat (map (\<lambda>i. filter (is_elem {i}) ks) s)"
proof (induction s arbitrary: ks)
  case Nil
  have "\<not> is_elem {} k" for k
    by (cases k) (simp_all add: is_elem_def)
  then show ?case by simp
next
  case (Cons i s)
  let ?A = "filter (\<lambda>k. \<not> is_elem {i} k) ks" and ?B = "filter (is_elem {i}) ks"
  have ni: "i \<notin> set s" and ds: "distinct s"
    using Cons.prems by simp_all
  have B: "filter (\<lambda>k. \<not> is_elem (set s) k) ?B = ?B"
  proof (rule filter_True, rule ballI)
    fix k
    assume "k \<in> set ?B"
    then have "is_elem {i} k" by simp
    then show "\<not> is_elem (set s) k"
      using ni by (cases k) (auto simp: is_elem_def)
  qed
  have A: "filter (\<lambda>k. \<not> is_elem (set s) k) ?A = filter (\<lambda>k. \<not> is_elem (set (i # s)) k) ks"
    unfolding filter_filter is_elem_Cons by (rule filter_cong) auto
  have J: "filter (is_elem {j}) (to_end i ks) = filter (is_elem {j}) ks" if "j \<in> set s" for j
  proof -
    have ne: "j \<noteq> i" using that ni by auto
    have x: "\<not> (is_elem {j} k \<and> is_elem {i} k)" for k
      using ne is_elem_two [of j k i] by blast
    have "filter (is_elem {j}) ?B = []"
      unfolding filter_filter using x by (auto simp: filter_empty_conv)
    moreover have "filter (is_elem {j}) ?A = filter (is_elem {j}) ks"
      unfolding filter_filter using x by (intro filter_cong) auto
    ultimately show ?thesis
      unfolding to_end_def filter_append by simp
  qed
  have C: "concat (map (\<lambda>j. filter (is_elem {j}) (to_end i ks)) s)
             = concat (map (\<lambda>j. filter (is_elem {j}) ks) s)"
    using J by (simp cong: map_cong)
  have D: "filter (\<lambda>k. \<not> is_elem (set s) k) (to_end i ks)
             = filter (\<lambda>k. \<not> is_elem (set (i # s)) k) ks @ ?B"
    unfolding to_end_def filter_append A B ..
  have "fold to_end (i # s) ks = fold to_end s (to_end i ks)"
    by simp
  also have "\<dots> = filter (\<lambda>k. \<not> is_elem (set s) k) (to_end i ks)
                    @ concat (map (\<lambda>j. filter (is_elem {j}) (to_end i ks)) s)"
    by (rule Cons.IH [OF ds])
  also have "\<dots> = (filter (\<lambda>k. \<not> is_elem (set (i # s)) k) ks @ ?B)
                    @ concat (map (\<lambda>j. filter (is_elem {j}) ks) s)"
    unfolding C D ..
  also have "\<dots> = filter (\<lambda>k. \<not> is_elem (set (i # s)) k) ks
                    @ concat (map (\<lambda>j. filter (is_elem {j}) ks) (i # s))"
    by (simp only: list.map concat.simps append_assoc)
  finally show ?case .
qed

lemma mset_fold_to_end: "mset (fold to_end s ks) = mset ks"
  by (induction s arbitrary: ks) (simp_all add: mset_to_end)

subsection \<open>Rearranging twice\<close>

lemma rearrange_rearrange:
  "rearrange p g (rearrange p f n) = rearrange p (\<lambda>ks. g (f ks)) n"
  by (induction n) simp_all

lemma rearranged_rearranged:
  "rearranged p g (rearranged p f d) = rearranged p (\<lambda>ks. g (f ks)) d"
  by (simp add: rearranged_def rearrange_rearrange comp_def)

lemma same_elements_rearranged:
  "(\<And>ks. mset (f ks) = mset ks) \<Longrightarrow> same_elements d (rearranged p f d)"
  unfolding same_elements_def using rearranged_placed [of f p d] by simp

lemma append_all_rearranged:
  "wf_dom d \<Longrightarrow> \<forall>el\<in>set els. child_of d p el \<Longrightarrow>
   append_all p els d = Done (rearranged p (fold to_end els) d)"
proof (induction els arbitrary: d)
  case Nil
  have "rearrange p (\<lambda>a. a) n = n" for n
    by (induction n) (simp_all add: map_idI)
  then have "map (rearrange p (\<lambda>a. a)) ns = ns" for ns
    by (simp add: map_idI)
  then have "rearranged p (\<lambda>a. a) d = d"
    by (simp add: rearranged_def)
  then show ?case by simp
next
  case (Cons el els)
  obtain ee where ee: "ee \<in> set (all_entries d)" "eid ee = el" "parentElement ee = Some p"
    using Cons.prems(2) unfolding child_of_def by auto
  then obtain pn anc where pa: "fst ee = pn # anc" "nid pn = p"
    by (auto simp: parentElement_def split: list.splits)
  let ?d1 = "rearranged p (to_end el) d"
  have a: "appendChild p el d = Done ?d1"
    by (rule appendChild_child [OF Cons.prems(1) ee(1) pa ee(2)])
  have se: "same_elements d ?d1"
    by (rule same_elements_rearranged) (rule mset_to_end)
  have "wf_dom ?d1"
    by (rule same_elements_wf [OF se Cons.prems(1)])
  moreover have "\<forall>el\<in>set els. child_of ?d1 p el"
    using Cons.prems(2) same_elements_child [OF se] by simp
  ultimately have "append_all p els ?d1 = Done (rearranged p (fold to_end els) ?d1)"
    by (rule Cons.IH)
  then show ?case
    using a by (simp add: rearranged_rearranged)
qed

subsection \<open>The key of a block is read from its own subtree\<close>

lemma find_snd: "map_option snd (find (\<lambda>x. P (snd x)) xs) = find P (map snd xs)"
  by (induction xs) simp_all

lemma descendants_snd: "snd e = snd e' \<Longrightarrow> map snd (descendants e) = map snd (descendants e')"
  by (auto simp: descendants_def walks_elems split: node.split)

lemma chordKey_snd: "snd e = snd e' \<Longrightarrow> chordKey h e = chordKey h e'"
proof -
  assume a: "snd e = snd e'"
  have "map_option snd (find (\<lambda>x. is_span_cbg1qdk (snd x)) (descendants e))
        = map_option snd (find (\<lambda>x. is_span_cbg1qdk (snd x)) (descendants e'))"
    unfolding find_snd descendants_snd [OF a] ..
  then have "(case find (\<lambda>x. is_span_cbg1qdk (snd x)) (descendants e) of
                None \<Rightarrow> [] | Some span \<Rightarrow> textContent (snd span))
           = (case find (\<lambda>x. is_span_cbg1qdk (snd x)) (descendants e') of
                None \<Rightarrow> [] | Some span \<Rightarrow> textContent (snd span))"
    by (auto split: option.splits)
  then show ?thesis
    by (simp add: chordKey_def)
qed

subsection \<open>The entries of a rearranged tree\<close>

lemma rearrange_sel [simp]:
  "nid (rearrange p f n) = nid n" "tagName (rearrange p f n) = tagName n"
  "classList (rearrange p f n) = classList n" "attributes (rearrange p f n) = attributes n"
  by (cases n; simp)+

lemma rearrange_entry_sel [simp]:
  "fst (rearrange_entry p f e) = map (rearrange p f) (fst e)"
  "snd (rearrange_entry p f e) = rearrange p f (snd e)"
  by (simp_all add: rearrange_entry_def)

lemma eid_rearrange_entry [simp]: "eid (rearrange_entry p f e) = eid e"
  by (simp add: eid_def)

lemma parentElement_rearrange_entry [simp]:
  "parentElement (rearrange_entry p f e) = parentElement e"
  by (cases "fst e") (simp_all add: parentElement_def)

lemma selectors_rearrange [simp]:
  "is_span_cbg1qdk (rearrange p f n) = is_span_cbg1qdk n"
  "is_div_deu1fhf (rearrange p f n) = is_div_deu1fhf n"
  by (simp_all add: is_span_cbg1qdk_def is_div_deu1fhf_def hasClass_def)

lemma is_svg_use_rearrange [simp]: "is_svg_use (rearrange_entry p f e) = is_svg_use e"
  by (simp add: is_svg_use_def getAttribute_def list_ex_iff)

lemma walk_rearrange_absent:
  "p \<notin> set (ids n) \<Longrightarrow>
   walk (map (rearrange p f) anc) n = map (rearrange_entry p f) (walk anc n)"
proof (induction n arbitrary: anc)
  case (Element i t c a ks)
  let ?n = "Element i t c a ks"
  have n: "rearrange p f ?n = ?n"
    by (rule rearrange_absent [OF Element.prems])
  have "walk (?n # map (rearrange p f) anc) k = map (rearrange_entry p f) (walk (?n # anc) k)"
    if "k \<in> set ks" for k
  proof -
    have "p \<notin> set (ids k)"
      using Element.prems that by (auto simp: ids_Element)
    from Element.IH [OF that this, of "?n # anc"] show ?thesis
      using n by simp
  qed
  then have m: "map (walk (?n # map (rearrange p f) anc)) ks
             = map (\<lambda>k. map (rearrange_entry p f) (walk (?n # anc) k)) ks"
    by simp
  have h: "rearrange_entry p f (anc, ?n) = (map (rearrange p f) anc, ?n)"
    using n by (simp add: rearrange_entry_def del: rearrange.simps)
  have "walk (map (rearrange p f) anc) ?n
          = (map (rearrange p f) anc, ?n) # concat (map (walk (?n # map (rearrange p f) anc)) ks)"
    by simp
  also have "\<dots> = (map (rearrange p f) anc, ?n)
                       # concat (map (\<lambda>k. map (rearrange_entry p f) (walk (?n # anc) k)) ks)"
    by (simp only: m)
  also have "\<dots> = map (rearrange_entry p f) (walk anc ?n)"
    by (simp add: h map_concat comp_def del: rearrange.simps)
  finally show ?case .
qed simp

lemma walk_rearrange:
  assumes f: "\<And>ks. set (f ks) = set ks"
  shows "distinct (ids n) \<Longrightarrow>
         set (walk (map (rearrange p f) anc) (rearrange p f n))
           = rearrange_entry p f ` set (walk anc n)"
proof (induction n arbitrary: anc)
  case (Element i t c a ks)
  let ?n = "Element i t c a ks" and ?r = "rearrange p f"
  have dk: "distinct (concat (map ids ks))" and ik: "i \<notin> set (concat (map ids ks))"
    using Element.prems by (simp_all add: ids_Element)
  show ?case
  proof (cases "i = p")
    case True
    have each: "walk (?r ?n # map ?r anc) k = map (rearrange_entry p f) (walk (?n # anc) k)"
      if "k \<in> set ks" for k
    proof -
      have "p \<notin> set (ids k)"
        using ik True that by auto
      from walk_rearrange_absent [OF this, of f "?n # anc"] show ?thesis
        by simp
    qed
    have "set (walk (map ?r anc) (?r ?n))
            = insert (map ?r anc, ?r ?n) (\<Union>k\<in>set (f ks). set (walk (?r ?n # map ?r anc) k))"
      using True by simp
    also have "\<dots> = insert (map ?r anc, ?r ?n) (\<Union>k\<in>set ks. set (walk (?r ?n # map ?r anc) k))"
      by (simp only: f)
    also have "\<dots> = insert (map ?r anc, ?r ?n)
                        (\<Union>k\<in>set ks. rearrange_entry p f ` set (walk (?n # anc) k))"
      using each by simp
    also have "\<dots> = rearrange_entry p f ` set (walk anc ?n)"
      by (auto simp: rearrange_entry_def)
    finally show ?thesis .
  next
    case False
    have each: "set (walk (?r ?n # map ?r anc) (?r k)) = rearrange_entry p f ` set (walk (?n # anc) k)"
      if "k \<in> set ks" for k
      using Element.IH [OF that distinct_kid [OF dk that], of "?n # anc"] by simp
    have "set (walk (map ?r anc) (?r ?n))
            = insert (map ?r anc, ?r ?n) (\<Union>k\<in>set ks. set (walk (?r ?n # map ?r anc) (?r k)))"
      using False by simp
    also have "\<dots> = insert (map ?r anc, ?r ?n)
                        (\<Union>k\<in>set ks. rearrange_entry p f ` set (walk (?n # anc) k))"
      using each by simp
    also have "\<dots> = rearrange_entry p f ` set (walk anc ?n)"
      by (auto simp: rearrange_entry_def)
    finally show ?thesis .
  qed
qed simp

lemma walks_rearrange:
  assumes f: "\<And>ks. set (f ks) = set ks" and d: "distinct (concat (map ids ns))"
  shows "set (walks [] (map (rearrange p f) ns)) = rearrange_entry p f ` set (walks [] ns)"
proof -
  have "set (walk [] (rearrange p f k)) = rearrange_entry p f ` set (walk [] k)"
    if "k \<in> set ns" for k
    using walk_rearrange [OF f distinct_kid [OF d that], of p "[]"] by simp
  then show ?thesis
    by (auto simp: walks_def)
qed

lemma wf_distinct_doc: "wf_dom d \<Longrightarrow> distinct (concat (map ids (document d)))"
  by (simp add: wf_distinct_ids)

lemma entries_rearranged:
  assumes f: "\<And>ks. set (f ks) = set ks" and wf: "wf_dom d"
  shows "set (doc_entries (rearranged p f d)) = rearrange_entry p f ` set (doc_entries d)"
    and "set (all_entries (rearranged p f d)) = rearrange_entry p f ` set (all_entries d)"
proof -
  show "set (doc_entries (rearranged p f d)) = rearrange_entry p f ` set (doc_entries d)"
    using walks_rearrange [OF f wf_distinct_doc [OF wf], of p]
    by (simp add: doc_entries_def rearranged_def)
  have "distinct (concat (map ids (document d @ detached d)))"
    using wf by (simp add: wf_distinct_ids)
  from walks_rearrange [OF f this, of p]
  show "set (all_entries (rearranged p f d)) = rearrange_entry p f ` set (all_entries d)"
    by (simp add: all_entries_walks rearranged_def)
qed

text \<open>The descendants of an entry, after the rearrangement.\<close>

lemma entry_distinct_ids: "wf_dom d \<Longrightarrow> e \<in> set (all_entries d) \<Longrightarrow> distinct (ids (snd e))"
proof -
  assume wf: "wf_dom d" and e: "e \<in> set (all_entries d)"
  have "snd e \<in> set (forest_elems (document d @ detached d))"
    using walks_snd_elems [of e "[]"] e by (simp add: all_entries_walks)
  then obtain k where k: "k \<in> set (document d @ detached d)" "snd e \<in> set (elems k)"
    by (auto simp: forest_elems_def)
  have "distinct (ids k)"
    using wf k(1) distinct_kid [of "document d @ detached d" k] by (simp add: wf_distinct_ids)
  then show ?thesis
    using distinct_sub [OF k(2)] by simp
qed

lemma walk_self: "snd e = Element i t c a ks \<Longrightarrow> walk (fst e) (snd e) = e # descendants e"
  by (cases e) (simp add: descendants_def walks_def)

lemma descendants_deeper: "x \<in> set (descendants e) \<Longrightarrow> length (fst e) < length (fst x)"
proof (cases "snd e")
  case (Element i t c a ks)
  assume "x \<in> set (descendants e)"
  then obtain k where "x \<in> set (walk (snd e # fst e) k)"
    unfolding descendants_def Element node.case walks_def
    by (auto simp: Element)
  from walk_longer [OF this] show ?thesis by simp
next
  case (Text s)
  assume "x \<in> set (descendants e)"
  then show ?thesis
    by (simp add: descendants_def Text)
qed

lemma descendants_rearrange:
  assumes f: "\<And>ks. set (f ks) = set ks" and dn: "distinct (ids (snd e))"
  shows "set (descendants (rearrange_entry p f e)) = rearrange_entry p f ` set (descendants e)"
proof (cases "snd e")
  case (Element i t c a ks)
  let ?r = "rearrange p f" and ?e = "rearrange_entry p f e"
  have w: "walk (fst e) (snd e) = e # descendants e"
    by (rule walk_self [OF Element])
  have "snd ?e = Element i t c a (if i = p then f ks else map ?r ks)"
    by (simp add: Element)
  from walk_self [OF this] have w': "walk (map ?r (fst e)) (?r (snd e)) = ?e # descendants ?e"
    by simp
  have "set (walk (map ?r (fst e)) (?r (snd e))) = rearrange_entry p f ` set (walk (fst e) (snd e))"
    by (rule walk_rearrange [OF f dn])
  then have eq: "insert ?e (set (descendants ?e))
                 = insert ?e (rearrange_entry p f ` set (descendants e))"
    unfolding w w' by simp
  have a: "?e \<notin> set (descendants ?e)"
    using descendants_deeper [of ?e ?e] by blast
  have b: "?e \<notin> rearrange_entry p f ` set (descendants e)"
  proof
    assume "?e \<in> rearrange_entry p f ` set (descendants e)"
    then obtain x where x: "x \<in> set (descendants e)" "rearrange_entry p f x = ?e"
      by auto
    have "length (fst e) < length (fst x)"
      by (rule descendants_deeper [OF x(1)])
    moreover have "length (fst (rearrange_entry p f x)) = length (fst ?e)"
      by (simp only: x(2))
    ultimately show False by simp
  qed
  show ?thesis
    by (rule insert_ident [THEN iffD1, OF a b eq])
next
  case (Text s)
  then show ?thesis
    by (simp add: descendants_def rearrange_entry_def)
qed

lemma isChordBlock_rearrange:
  assumes f: "\<And>ks. set (f ks) = set ks" and dn: "distinct (ids (snd e))"
  shows "isChordBlock (rearrange_entry p f e) = isChordBlock e"
  by (simp add: isChordBlock_def list_ex_iff descendants_rearrange [OF f dn])

lemma is_block_rearrange:
  assumes f: "\<And>ks. set (f ks) = set ks" and dn: "distinct (ids (snd e))"
  shows "is_block (rearrange_entry p f e) = is_block e"
  by (simp add: is_block_def isChordBlock_rearrange [OF f dn])

lemma chord_blocks_is_block: "chord_blocks d = filter is_block (doc_entries d)"
  by (auto simp: chord_blocks_def is_block_def intro: filter_cong)

lemma chord_blocks_rearranged:
  assumes f: "\<And>ks. set (f ks) = set ks" and wf: "wf_dom d"
  shows "set (chord_blocks (rearranged p f d)) = rearrange_entry p f ` set (chord_blocks d)"
proof -
  have "is_block (rearrange_entry p f e) = is_block e" if "e \<in> set (doc_entries d)" for e
    using is_block_rearrange [OF f entry_distinct_ids [OF wf]] that doc_entries_all by blast
  then show ?thesis
    unfolding chord_blocks_is_block using entries_rearranged(1) [OF f wf, of p] by auto
qed

subsection \<open>The children of an element\<close>

lemma is_element_rearrange [simp]: "is_element (rearrange p f n) = is_element n"
  by (cases n) (simp_all add: is_element_def)

lemma child_entries_fst: "x \<in> set (child_entries e) \<Longrightarrow> fst x = snd e # fst e"
  by (auto simp: child_entries_def split: node.splits)

lemma child_entries_parent:
  "x \<in> set (child_entries e) \<Longrightarrow> parentElement x = Some (eid e)"
  using child_entries_fst [of x e] by (simp add: parentElement_def eid_def)

lemma child_entries_descendants: "set (child_entries e) \<subseteq> set (descendants e)"
proof
  fix x
  assume x: "x \<in> set (child_entries e)"
  then obtain i t c a ks where n: "snd e = Element i t c a ks"
    by (cases "snd e") (auto simp: child_entries_def)
  obtain k where k: "k \<in> set ks" "is_element k" "x = (snd e # fst e, k)"
    using x by (auto simp: child_entries_def n)
  obtain j t' c' a' ks' where "k = Element j t' c' a' ks'"
    using k(2) by (cases k) (simp_all add: is_element_def)
  then have "x \<in> set (walk (snd e # fst e) k)"
    using k(3) by simp
  then show "x \<in> set (descendants e)"
    using k(1) by (auto simp: descendants_def n walks_def)
qed

lemma descendants_doc:
  "e \<in> set (doc_entries d) \<Longrightarrow> set (descendants e) \<subseteq> set (doc_entries d)"
  using doc_walk_sub [of e d] doc_walk_head [of e d] by auto

lemma child_entries_doc:
  "e \<in> set (doc_entries d) \<Longrightarrow> set (child_entries e) \<subseteq> set (doc_entries d)"
  using child_entries_descendants [of e] descendants_doc [of e d] by blast

lemma child_entries_iff:
  assumes wf: "wf_dom d" and pe: "pe \<in> set (doc_entries d)" and b: "b \<in> set (doc_entries d)"
  shows "b \<in> set (child_entries pe) \<longleftrightarrow> parentElement b = Some (eid pe)"
proof
  assume "b \<in> set (child_entries pe)"
  then show "parentElement b = Some (eid pe)"
    by (rule child_entries_parent)
next
  assume par: "parentElement b = Some (eid pe)"
  then obtain q rest where f: "fst b = q # rest" "nid q = eid pe"
    by (auto simp: parentElement_def split: list.splits)
  have bw: "b \<in> set (walks [] (document d))"
    using b by (simp add: doc_entries_def)
  have "(rest, q) \<in> set (doc_entries d)"
    using walks_parent [OF bw f(1)] by (simp add: doc_entries_def)
  then have q: "pe = (rest, q)"
    using doc_same_entry [OF wf pe, of "(rest, q)"] f(2) by (simp add: eid_def)
  have kid: "snd b \<in> set (childNodes q)"
    by (rule walks_kid [OF bw f(1)])
  obtain j t c a ks where n: "snd b = Element j t c a ks"
    using walks_Element [OF bw] by blast
  obtain i t' c' a' ks' where qn: "q = Element i t' c' a' ks'"
    using entry_Element [of pe d] pe doc_entries_all [of d] q by (metis snd_conv subsetD)
  have "b = (q # rest, snd b)"
    using f(1) by (cases b) simp
  then show "b \<in> set (child_entries pe)"
    using kid n by (simp add: child_entries_def q qn is_element_def image_iff)
qed

lemma is_elem_eid: "snd x = Element j t c a ks \<Longrightarrow> is_elem R (snd x) \<longleftrightarrow> eid x \<in> R"
  by (simp add: is_elem_def eid_def)

lemma kid_once:
  assumes dk: "distinct (concat (map ids ks))" and k: "k \<in> set ks" "is_elem {i} k"
  shows "filter (is_elem {i}) ks = [k]"
proof -
  have ik: "i \<in> set (ids k)"
    by (rule is_elem_single [OF k(2)])
  have "is_elem {i} k' \<longleftrightarrow> i \<in> set (ids k')" if "k' \<in> set ks" for k'
  proof
    assume "is_elem {i} k'"
    then show "i \<in> set (ids k')" by (rule is_elem_single)
  next
    assume "i \<in> set (ids k')"
    then have "k' = k"
      using distinct_kids_same [OF dk that k(1)] ik by blast
    then show "is_elem {i} k'" using k(2) by simp
  qed
  then have "filter (is_elem {i}) ks = filter (\<lambda>k'. i \<in> set (ids k')) ks"
    by (intro filter_cong) auto
  then show ?thesis
    using distinct_kid_once [OF dk k(1) ik] by simp
qed

subsection \<open>The parent of a block lies in no block\<close>

lemma blocks_flatD:
  "blocks_flat d \<Longrightarrow> k \<in> set (chord_blocks d) \<Longrightarrow> x \<in> set (descendants k) \<Longrightarrow> \<not> is_block x"
  by (auto simp: blocks_flat_def list_all_iff list_ex_iff)

lemma chord_blocks_doc: "k \<in> set (chord_blocks d) \<Longrightarrow> k \<in> set (doc_entries d) \<and> is_block k"
  by (simp add: chord_blocks_is_block)

lemma parent_outside_blocks:
  assumes wf: "wf_dom d" and flat: "blocks_flat d"
    and k: "k \<in> set (chord_blocks d)" and b: "b \<in> set (chord_blocks d)"
    and par: "parentElement b = Some p"
  shows "p \<notin> set (ids (snd k))"
proof
  assume "p \<in> set (ids (snd k))"
  then have "p \<in> set (map eid (walk (fst k) (snd k)))"
    by (simp add: walk_ids ids_def)
  then obtain y where y: "y \<in> set (walk (fst k) (snd k))" "eid y = p"
    by auto
  have kd: "k \<in> set (doc_entries d)" and bd: "b \<in> set (doc_entries d)" and bb: "is_block b"
    using k b chord_blocks_doc by auto
  have yd: "y \<in> set (doc_entries d)"
    using doc_walk_sub [OF kd] y(1) by blast
  have "b \<in> set (child_entries y)"
    using child_entries_iff [OF wf yd bd] par y(2) by simp
  then have bdy: "b \<in> set (descendants y)" and fb: "fst b = snd y # fst y"
    using child_entries_descendants [of y] child_entries_fst [of b y] by auto
  have "b \<in> set (walk (fst y) (snd y))"
    using bdy doc_walk_head [OF yd] by simp
  then have "b \<in> set (walk (fst k) (snd k))"
    using y(1) by (rule walk_trans)
  then have "b = k \<or> b \<in> set (descendants k)"
    using doc_walk_head [OF kd] by simp
  then show False
  proof
    assume "b = k"
    then have "length (fst b) \<le> length (fst y)"
      using walk_longer [OF y(1)] by simp
    then show False
      using fb by simp
  next
    assume "b \<in> set (descendants k)"
    then show False
      using blocks_flatD [OF flat k] bb by blast
  qed
qed

lemma block_key_rearranged:
  assumes wf: "wf_dom d" and flat: "blocks_flat d"
    and k: "k \<in> set (chord_blocks d)" and b: "b \<in> set (chord_blocks d)"
    and par: "parentElement b = Some p"
  shows "chordKey h (rearrange_entry p f k) = chordKey h k"
proof -
  have "rearrange p f (snd k) = snd k"
    by (rule rearrange_absent [OF parent_outside_blocks [OF wf flat k b par]])
  then show ?thesis
    by (intro chordKey_snd) simp
qed

subsection \<open>The order of the blocks below the other elements stays\<close>

lemma child_entries_rearrange_other:
  assumes "eid pe \<noteq> p"
  shows "child_entries (rearrange_entry p f pe) = map (rearrange_entry p f) (child_entries pe)"
proof (cases "snd pe")
  case (Element i t c a ks)
  then have ip: "i \<noteq> p"
    using assms by (simp add: eid_def)
  have "filter is_element (map (rearrange p f) ks) = map (rearrange p f) (filter is_element ks)"
    by (simp add: filter_map comp_def)
  then show ?thesis
    using ip by (simp add: child_entries_def Element rearrange_entry_def comp_def)
next
  case (Text s)
  then show ?thesis
    by (simp add: child_entries_def)
qed

lemma doc_distinct_ids: "wf_dom d \<Longrightarrow> e \<in> set (doc_entries d) \<Longrightarrow> distinct (ids (snd e))"
  using entry_distinct_ids [of d e] doc_entries_all [of d] by blast

lemma filter_blocks_rearrange:
  assumes f: "\<And>ks. set (f ks) = set ks" and wf: "wf_dom d"
    and xs: "set xs \<subseteq> set (doc_entries d)"
  shows "filter is_block (map (rearrange_entry p f) xs) = map (rearrange_entry p f) (filter is_block xs)"
proof -
  have "is_block (rearrange_entry p f x) = is_block x" if "x \<in> set xs" for x
    using is_block_rearrange [OF f doc_distinct_ids [OF wf]] that xs by blast
  then have "filter (\<lambda>x. is_block (rearrange_entry p f x)) xs = filter is_block xs"
    by (intro filter_cong) auto
  then show ?thesis
    by (simp add: filter_map comp_def)
qed

lemma child_blocks_rearrange_other:
  assumes f: "\<And>ks. set (f ks) = set ks" and wf: "wf_dom d"
    and pe: "pe \<in> set (doc_entries d)" and ne: "eid pe \<noteq> p"
  shows "child_blocks (rearrange_entry p f pe) = map (rearrange_entry p f) (child_blocks pe)"
  unfolding child_blocks_def child_entries_rearrange_other [OF ne]
  by (rule filter_blocks_rearrange [OF f wf child_entries_doc [OF pe]])

lemma child_blocks_chord: 
  "pe \<in> set (doc_entries d) \<Longrightarrow> set (child_blocks pe) \<subseteq> set (chord_blocks d)"
  using child_entries_doc [of pe d] by (auto simp: child_blocks_def chord_blocks_is_block)

lemma sorted_wrt_cong:
  "(\<And>x y. x \<in> set xs \<Longrightarrow> y \<in> set xs \<Longrightarrow> P x y = Q x y) \<Longrightarrow> sorted_wrt P xs = sorted_wrt Q xs"
  by (induction xs) auto

lemma in_key_order_other:
  assumes f: "\<And>ks. set (f ks) = set ks" and wf: "wf_dom d" and flat: "blocks_flat d"
    and b: "b \<in> set (chord_blocks d)" "parentElement b = Some p"
    and pe: "pe \<in> set (doc_entries d)" and ne: "eid pe \<noteq> p"
  shows "in_key_order h (rearrange_entry p f pe) = in_key_order h pe"
proof -
  have key: "chordKey h (rearrange_entry p f x) = chordKey h x" if "x \<in> set (child_blocks pe)" for x
    using block_key_rearranged [OF wf flat _ b] child_blocks_chord [OF pe] that by blast
  show ?thesis
    unfolding in_key_order_def child_blocks_rearrange_other [OF f wf pe ne] sorted_wrt_map
    by (rule sorted_wrt_cong) (simp add: key)
qed

subsection \<open>The order of the blocks below the parent that is sorted\<close>

lemma child_blocks_sorted_parent:
  assumes wf: "wf_dom d"
    and pe: "pe \<in> set (doc_entries d)" "eid pe = p"
    and s: "distinct s" "set s = eid ` set (child_blocks pe)"
  shows "child_blocks (rearrange_entry p (fold to_end s) pe)
           = map (\<lambda>i. rearrange_entry p (fold to_end s) (the (entry_of d i))) s"
proof -
  let ?f = "fold to_end s"
  let ?r = "rearrange p ?f" and ?re = "rearrange_entry p ?f"
  have f: "set (?f ks) = set ks" for ks
    using mset_fold_to_end [of s ks] by (metis set_mset_mset)
  have "pe \<in> set (all_entries d)"
    using pe(1) doc_entries_all [of d] by blast
  then obtain j t c a ks where "snd pe = Element j t c a ks"
    using entry_Element [of pe d] by blast
  then have n: "snd pe = Element p t c a ks"
    using pe(2) by (simp add: eid_def)
  let ?E = "\<lambda>k. (snd pe # fst pe, k)"
  let ?G = "\<lambda>xs. filter is_block (map ?E (filter is_element xs))"
  have dn: "distinct (ids (snd pe))"
    by (rule doc_distinct_ids [OF wf pe(1)])
  then have dk: "distinct (concat (map ids ks))" and pk: "p \<notin> set (concat (map ids ks))"
    by (simp_all add: n ids_Element)
  have ce: "child_entries pe = map ?E (filter is_element ks)"
    by (simp add: child_entries_def n)
  have cb: "child_blocks pe = ?G ks"
    by (simp add: child_blocks_def ce)
  have same: "(?r (snd pe) # map ?r (fst pe), k) = ?re (?E k)" if "k \<in> set ks" for k
  proof -
    have "p \<notin> set (ids k)"
      using pk that by auto
    then show ?thesis
      by (simp add: rearrange_entry_def rearrange_absent)
  qed
  have "child_entries (?re pe)
          = map (\<lambda>k. (?r (snd pe) # map ?r (fst pe), k)) (filter is_element (?f ks))"
    by (simp add: child_entries_def n)
  also have "\<dots> = map (\<lambda>k. ?re (?E k)) (filter is_element (?f ks))"
    using same f by (intro map_cong) auto
  finally have ce': "child_entries (?re pe) = map ?re (map ?E (filter is_element (?f ks)))"
    by (simp add: comp_def)
  have "set (map ?E (filter is_element (?f ks))) \<subseteq> set (child_entries pe)"
    unfolding ce using f by auto
  then have sub: "set (map ?E (filter is_element (?f ks))) \<subseteq> set (doc_entries d)"
    using child_entries_doc [OF pe(1)] by blast
  have perm: "\<And>ks. set (?f ks) = set ks"
    by (rule f)
  have cb': "child_blocks (?re pe) = map ?re (?G (?f ks))"
    unfolding child_blocks_def ce'
    by (rule filter_blocks_rearrange [OF perm wf sub])
  have A: "?G (filter (\<lambda>k. \<not> is_elem (set s) k) ks) = []"
  proof -
    have "\<not> is_block (?E k)" if k: "k \<in> set ks" "\<not> is_elem (set s) k" "is_element k" for k
    proof
      assume "is_block (?E k)"
      then have "?E k \<in> set (child_blocks pe)"
        using k by (simp add: cb)
      then have "eid (?E k) \<in> set s"
        using s(2) by blast
      then show False
        using k(2,3) by (cases k) (simp_all add: is_elem_def eid_def is_element_def)
    qed
    then show ?thesis
      by (auto simp: filter_empty_conv)
  qed
  have B: "?G (filter (is_elem {i}) ks) = [the (entry_of d i)]" if i: "i \<in> set s" for i
  proof -
    obtain b where b: "b \<in> set (child_blocks pe)" "eid b = i"
      using i s(2) by auto
    then obtain k where k: "k \<in> set ks" "is_element k" "b = ?E k" "is_block b"
      by (auto simp: cb)
    have "is_elem {i} k"
      using b(2) k(2,3) by (cases k) (simp_all add: is_elem_def eid_def is_element_def)
    then have "filter (is_elem {i}) ks = [k]"
      by (rule kid_once [OF dk k(1)])
    moreover have "entry_of d i = Some b"
      using entry_of_wf [OF wf, of b] child_blocks_chord [OF pe(1)] b chord_blocks_doc [of b d]
        doc_entries_all [of d] by auto
    ultimately show ?thesis
      using k by simp
  qed
  have G_append: "?G (xs @ ys) = ?G xs @ ?G ys" for xs ys
    by simp
  have G_concat: "?G (concat xss) = concat (map ?G xss)" for xss
    by (induction xss) simp_all
  have "?G (?f ks) = ?G (filter (\<lambda>k. \<not> is_elem (set s) k) ks)
                       @ ?G (concat (map (\<lambda>i. filter (is_elem {i}) ks) s))"
    unfolding fold_to_end [OF s(1)] by (rule G_append)
  also have "\<dots> = concat (map (\<lambda>i. ?G (filter (is_elem {i}) ks)) s)"
    unfolding A G_concat by (simp add: comp_def)
  also have "\<dots> = concat (map (\<lambda>i. [the (entry_of d i)]) s)"
    using B by (simp cong: map_cong)
  also have "\<dots> = map (\<lambda>i. the (entry_of d i)) s"
    by (induction s) simp_all
  finally show ?thesis
    unfolding cb' by (simp add: comp_def)
qed

lemma in_key_order_sorted_parent:
  assumes wf: "wf_dom d" and flat: "blocks_flat d"
    and pe: "pe \<in> set (doc_entries d)" "eid pe = p"
    and s: "distinct s" "set s = eid ` set (child_blocks pe)"
    and sorted: "sorted_wrt (\<lambda>a b. localeCompare h (key_of h d a) (key_of h d b) \<le> 0) s"
  shows "in_key_order h (rearrange_entry p (fold to_end s) pe)"
proof -
  have key: "chordKey h (rearrange_entry p (fold to_end s) (the (entry_of d i))) = key_of h d i"
    if i: "i \<in> set s" for i
  proof -
    obtain b where b: "b \<in> set (child_blocks pe)" "eid b = i"
      using i s(2) by auto
    have bc: "b \<in> set (chord_blocks d)"
      using child_blocks_chord [OF pe(1)] b(1) by blast
    have look: "entry_of d i = Some b"
      using entry_of_wf [OF wf, of b] bc b(2) chord_blocks_doc [of b d] doc_entries_all [of d]
      by auto
    have "parentElement b = Some p"
      using child_entries_parent [of b pe] b(1) pe(2) by (simp add: child_blocks_def)
    from block_key_rearranged [OF wf flat bc bc this]
    show ?thesis
      by (simp add: look key_of_def)
  qed
  show ?thesis
    unfolding in_key_order_def child_blocks_sorted_parent [OF wf pe s] sorted_wrt_map
    using sorted by (simp add: key cong: sorted_wrt_cong)
qed

subsection \<open>What a rearrangement keeps\<close>

lemma rearranged_flat:
  assumes f: "\<And>ks. set (f ks) = set ks" and wf: "wf_dom d" and flat: "blocks_flat d"
  shows "blocks_flat (rearranged p f d)"
proof -
  have "\<not> is_block x1"
    if k1: "k1 \<in> set (chord_blocks (rearranged p f d))" and x1: "x1 \<in> set (descendants k1)"
    for k1 x1
  proof -
    obtain k where k: "k \<in> set (chord_blocks d)" "k1 = rearrange_entry p f k"
      using k1 chord_blocks_rearranged [OF f wf, of p] by auto
    have kd: "k \<in> set (doc_entries d)"
      using k(1) chord_blocks_doc by blast
    have "set (descendants k1) = rearrange_entry p f ` set (descendants k)"
      unfolding k(2) by (rule descendants_rearrange [OF f doc_distinct_ids [OF wf kd]])
    then obtain x where x: "x \<in> set (descendants k)" "x1 = rearrange_entry p f x"
      using x1 by auto
    have "x \<in> set (doc_entries d)"
      using descendants_doc [OF kd] x(1) by blast
    then have "is_block x1 = is_block x"
      unfolding x(2) by (intro is_block_rearrange [OF f] doc_distinct_ids [OF wf])
    then show ?thesis
      using blocks_flatD [OF flat k(1) x(1)] by simp
  qed
  then show ?thesis
    by (auto simp: blocks_flat_def list_all_iff list_ex_iff)
qed

lemma rearranged_places:
  assumes f: "\<And>ks. set (f ks) = set ks" and wf: "wf_dom d"
  shows "block_places (rearranged p f d) = block_places d"
  unfolding block_places_def chord_blocks_rearranged [OF f wf]
  by (simp add: image_image)

lemma rearranged_keys:
  assumes f: "\<And>ks. set (f ks) = set ks" and wf: "wf_dom d" and flat: "blocks_flat d"
    and b: "b \<in> set (chord_blocks d)" "parentElement b = Some p"
  shows "block_keys h (rearranged p f d) = block_keys h d"
proof -
  have "chordKey h (rearrange_entry p f k) = chordKey h k" if "k \<in> set (chord_blocks d)" for k
    by (rule block_key_rearranged [OF wf flat that b])
  then show ?thesis
    unfolding block_keys_def chord_blocks_rearranged [OF f wf]
    by (simp add: image_image)
qed

subsection \<open>The groups of the Map\<close>

lemma push_keys: "fst ` set (byParent_push p b m) = insert p (fst ` set m)"
  by (induction p b m rule: byParent_push.induct) auto

lemma push_distinct: "distinct (map fst m) \<Longrightarrow> distinct (map fst (byParent_push p b m))"
proof (induction m)
  case Nil
  then show ?case by simp
next
  case (Cons g m)
  obtain q l where g: "g = (q, l)" by (cases g)
  show ?case
    using Cons push_keys [of p b m] by (auto simp: g)
qed

lemma group_of_absent: "q \<notin> fst ` set m \<Longrightarrow> group_of m q = []"
  by (induction m) (auto simp: group_of_def)

lemma push_group_of:
  "distinct (map fst m) \<Longrightarrow>
   group_of (byParent_push p b m) q = group_of m q @ (if q = p then [b] else [])"
proof (induction m)
  case Nil
  then show ?case by (simp add: group_of_def)
next
  case (Cons g m)
  obtain r l where g: "g = (r, l)" by (cases g)
  show ?case
  proof (cases "r = p")
    case True
    have "p \<notin> fst ` set m"
      using Cons.prems True by (auto simp: g)
    then have fe: "filter (\<lambda>g. fst g = p) m = []"
      by (auto simp: filter_empty_conv)
    show ?thesis
      using True by (simp add: g group_of_def fe)
  next
    case False
    then show ?thesis
      using Cons by (auto simp: g group_of_def)
  qed
qed

lemma push_nonempty:
  "\<forall>g\<in>set m. snd g \<noteq> [] \<Longrightarrow> \<forall>g\<in>set (byParent_push p b m). snd g \<noteq> []"
  by (induction p b m rule: byParent_push.induct) auto

lemma group_fold:
  assumes "distinct (map fst m)" "\<forall>g\<in>set m. snd g \<noteq> []"
  shows "distinct (map fst (fold (\<lambda>b m. case parentElement b of None \<Rightarrow> m
                                | Some p \<Rightarrow> byParent_push p (eid b) m) bs m))
    \<and> (\<forall>g\<in>set (fold (\<lambda>b m. case parentElement b of None \<Rightarrow> m
                                | Some p \<Rightarrow> byParent_push p (eid b) m) bs m). snd g \<noteq> [])
    \<and> fst ` set (fold (\<lambda>b m. case parentElement b of None \<Rightarrow> m
                                | Some p \<Rightarrow> byParent_push p (eid b) m) bs m)
        = fst ` set m \<union> {p. \<exists>b\<in>set bs. parentElement b = Some p}
    \<and> (\<forall>q. group_of (fold (\<lambda>b m. case parentElement b of None \<Rightarrow> m
                                | Some p \<Rightarrow> byParent_push p (eid b) m) bs m) q
           = group_of m q @ map eid (filter (\<lambda>b. parentElement b = Some q) bs))"
  using assms
proof (induction bs arbitrary: m)
  case Nil
  then show ?case by simp
next
  case (Cons b bs)
  show ?case
  proof (cases "parentElement b")
    case None
    then show ?thesis
      using Cons.IH [OF Cons.prems] by simp
  next
    case (Some p)
    let ?m = "byParent_push p (eid b) m"
    have d: "distinct (map fst ?m)"
      by (rule push_distinct [OF Cons.prems(1)])
    have n: "\<forall>g\<in>set ?m. snd g \<noteq> []"
      by (rule push_nonempty [OF Cons.prems(2)])
    show ?thesis
      using Cons.IH [OF d n] Some push_keys [of p "eid b" m]
        push_group_of [OF Cons.prems(1), of p "eid b"]
      by auto
  qed
qed

lemma group_of_member: "distinct (map fst m) \<Longrightarrow> (q, l) \<in> set m \<Longrightarrow> group_of m q = l"
proof (induction m)
  case Nil
  then show ?case by simp
next
  case (Cons g m)
  show ?case
  proof (cases "g = (q, l)")
    case True
    then have "q \<notin> fst ` set m"
      using Cons.prems(1) by auto
    then have "group_of m q = []"
      by (rule group_of_absent)
    then show ?thesis
      using True by (simp add: group_of_def)
  next
    case False
    then have "(q, l) \<in> set m" "fst g \<noteq> q"
      using Cons.prems by (auto simp: image_iff)
    then show ?thesis
      using Cons by (simp add: group_of_def)
  qed
qed

lemma group_blocks_ok:
  assumes wf: "wf_dom d"
  shows "groups_ok d (group_blocks (chord_blocks d))"
    and "fst ` set (group_blocks (chord_blocks d))
           = {p. \<exists>b\<in>set (chord_blocks d). parentElement b = Some p}"
proof -
  let ?gs = "group_blocks (chord_blocks d)"
  have gf: "distinct (map fst ?gs)" "\<forall>g\<in>set ?gs. snd g \<noteq> []"
    "fst ` set ?gs = {p. \<exists>b\<in>set (chord_blocks d). parentElement b = Some p}"
    "\<forall>q. group_of ?gs q = map eid (filter (\<lambda>b. parentElement b = Some q) (chord_blocks d))"
    using group_fold [of "[]" "chord_blocks d"] by (simp_all add: group_blocks_def group_of_def)
  show "fst ` set ?gs = {p. \<exists>b\<in>set (chord_blocks d). parentElement b = Some p}"
    by (rule gf(3))
  have dc: "distinct (map eid (chord_blocks d))"
    unfolding chord_blocks_is_block
    by (rule distinct_map_filter) (rule distinct_doc_ids [OF wf])
  have "distinct (snd g) \<and> snd g \<noteq> [] \<and> set (snd g) = {i. (i, Some (fst g)) \<in> block_places d}"
    if g: "g \<in> set ?gs" for g
  proof -
    have "group_of ?gs (fst g) = snd g"
      using group_of_member [OF gf(1), of "fst g" "snd g"] g by simp
    then have l: "snd g = map eid (filter (\<lambda>b. parentElement b = Some (fst g)) (chord_blocks d))"
      using gf(4) by simp
    have "distinct (snd g)"
      unfolding l by (rule distinct_map_filter [OF dc])
    moreover have "set (snd g) = {i. (i, Some (fst g)) \<in> block_places d}"
      unfolding l block_places_def by auto
    ultimately show ?thesis
      using gf(2) g by blast
  qed
  then show "groups_ok d ?gs"
    using gf(1) by (simp add: groups_ok_def)
qed

subsection \<open>Sorting group after group\<close>

lemma set_fold_to_end: "set (fold to_end s ks) = set ks"
  using mset_fold_to_end [of s ks] by (metis set_mset_mset)

lemma block_entry:
  assumes wf: "wf_dom d" and b: "b \<in> set (chord_blocks d)"
  shows "entry_of d (eid b) = Some b" and "key_of h d (eid b) = chordKey h b"
proof -
  have "b \<in> set (all_entries d)"
    using b chord_blocks_doc [of b d] doc_entries_all [of d] by blast
  then show "entry_of d (eid b) = Some b"
    by (rule entry_of_wf [OF wf])
  then show "key_of h d (eid b) = chordKey h b"
    by (simp add: key_of_def)
qed

lemma child_blocks_iff:
  assumes wf: "wf_dom d" and pe: "pe \<in> set (doc_entries d)"
  shows "b \<in> set (child_blocks pe)
           \<longleftrightarrow> b \<in> set (chord_blocks d) \<and> parentElement b = Some (eid pe)"
proof
  assume b: "b \<in> set (child_blocks pe)"
  then have "b \<in> set (chord_blocks d)"
    using child_blocks_chord [OF pe] by blast
  moreover have "parentElement b = Some (eid pe)"
    using b child_entries_parent [of b pe] by (simp add: child_blocks_def)
  ultimately show "b \<in> set (chord_blocks d) \<and> parentElement b = Some (eid pe)"
    by simp
next
  assume b: "b \<in> set (chord_blocks d) \<and> parentElement b = Some (eid pe)"
  then have bd: "b \<in> set (doc_entries d)" "is_block b"
    using chord_blocks_doc [of b d] by simp_all
  then have "b \<in> set (child_entries pe)"
    using child_entries_iff [OF wf pe bd(1)] b by simp
  then show "b \<in> set (child_blocks pe)"
    using bd(2) by (simp add: child_blocks_def)
qed

lemma parent_entry:
  assumes b: "b \<in> set (doc_entries d)" "parentElement b = Some p"
  shows "\<exists>pe\<in>set (doc_entries d). eid pe = p"
proof -
  obtain q rest where f: "fst b = q # rest" "nid q = p"
    using b(2) by (auto simp: parentElement_def split: list.splits)
  have "(rest, q) \<in> set (doc_entries d)"
    using walks_parent [of b "document d" q rest] b(1) f(1) by (simp add: doc_entries_def)
  then show ?thesis
    using f(2) by (auto simp: eid_def intro!: bexI [of _ "(rest, q)"])
qed

lemma sort_groups_sorted:
  assumes "wf_dom d" "blocks_flat d" "keys_consistent h (block_keys h d)" "groups_ok d gs"
    and "\<forall>pe\<in>set (doc_entries d). eid pe \<notin> fst ` set gs \<longrightarrow> in_key_order h pe"
  shows "\<exists>d'. sort_groups h gs d = Done d' \<and> block_places d' = block_places d
              \<and> (\<forall>pe\<in>set (doc_entries d'). in_key_order h pe)"
  using assms
proof (induction gs arbitrary: d)
  case Nil
  then show ?case by simp
next
  case (Cons g gs)
  note wf = Cons.prems(1) and flat = Cons.prems(2) and cons = Cons.prems(3)
  obtain p l where g: "g = (p, l)" by (cases g)
  have l: "distinct l" "l \<noteq> []" "set l = {i. (i, Some p) \<in> block_places d}"
    and pgs: "p \<notin> fst ` set gs" and rest: "groups_ok d gs"
    using Cons.prems(4) by (auto simp: groups_ok_def g)
  let ?cmp = "\<lambda>a b. localeCompare h (key_of h d a) (key_of h d b)"
  let ?s = "sort_group h d l"
  let ?f = "fold to_end ?s"
  let ?d1 = "rearranged p ?f d"
  let ?re = "rearrange_entry p ?f"
  have member: "\<exists>b\<in>set (chord_blocks d). eid b = i \<and> parentElement b = Some p"
    if "i \<in> set l" for i
    using that l(3) by (auto simp: block_places_def)
  obtain i0 where "i0 \<in> set l"
    using l(2) by (cases l) auto
  then obtain b0 where b0: "b0 \<in> set (chord_blocks d)" "parentElement b0 = Some p"
    using member by blast
  obtain pe where pe: "pe \<in> set (doc_entries d)" "eid pe = p"
    using parent_entry [of b0 d p] b0 chord_blocks_doc [of b0 d] by blast
  have sl: "set ?s = set l" and ds: "distinct ?s"
    by (simp_all add: sort_group_def set_sort_by distinct_sort_by l(1))
  have cb: "set ?s = eid ` set (child_blocks pe)"
    unfolding sl l(3) using child_blocks_iff [OF wf pe(1)] pe(2)
    by (auto simp: block_places_def image_iff)
  have key_in: "key_of h d i \<in> block_keys h d" if i: "i \<in> set l" for i
  proof -
    obtain b where b: "b \<in> set (chord_blocks d)" "eid b = i"
      using member [OF i] by blast
    then show ?thesis
      using block_entry(2) [OF wf b(1), of h] by (auto simp: block_keys_def)
  qed
  have tot: "\<forall>x\<in>set l. \<forall>y\<in>set l. ?cmp x y \<le> 0 \<or> ?cmp y x \<le> 0"
    using cons key_in unfolding keys_consistent_def by blast
  have tr: "\<forall>x\<in>set l. \<forall>y\<in>set l. \<forall>z\<in>set l. ?cmp x y \<le> 0 \<and> ?cmp y z \<le> 0 \<longrightarrow> ?cmp x z \<le> 0"
    using cons key_in unfolding keys_consistent_def by blast
  have sorted: "sorted_wrt (\<lambda>a b. ?cmp a b \<le> 0) ?s"
    unfolding sort_group_def by (rule sorted_sort_by [OF tot tr])
  have kids: "\<forall>el\<in>set ?s. child_of d p el"
  proof
    fix el
    assume "el \<in> set ?s"
    then obtain b where b: "b \<in> set (chord_blocks d)" "eid b = el" "parentElement b = Some p"
      using member sl by blast
    then have "b \<in> set (all_entries d)"
      using chord_blocks_doc [of b d] doc_entries_all [of d] by blast
    then show "child_of d p el"
      using b unfolding child_of_def by blast
  qed
  have app: "append_all p ?s d = Done ?d1"
    by (rule append_all_rearranged [OF wf kids])
  have f: "\<And>ks. set (?f ks) = set ks"
    by (rule set_fold_to_end)
  have wf1: "wf_dom ?d1"
    by (rule same_elements_wf [OF same_elements_rearranged wf]) (rule mset_fold_to_end)
  have flat1: "blocks_flat ?d1"
    by (rule rearranged_flat [OF f wf flat])
  have places1: "block_places ?d1 = block_places d"
    by (rule rearranged_places [OF f wf])
  have keys1: "block_keys h ?d1 = block_keys h d"
    by (rule rearranged_keys [OF f wf flat b0])
  have ok1: "groups_ok ?d1 gs"
    using rest by (simp add: groups_ok_def places1)
  have others: "\<forall>pe1\<in>set (doc_entries ?d1). eid pe1 \<notin> fst ` set gs \<longrightarrow> in_key_order h pe1"
  proof (intro ballI impI)
    fix pe1
    assume pe1: "pe1 \<in> set (doc_entries ?d1)" and out: "eid pe1 \<notin> fst ` set gs"
    obtain pe0 where pe0: "pe0 \<in> set (doc_entries d)" "pe1 = ?re pe0"
      using pe1 entries_rearranged(1) [OF f wf, of p] by auto
    show "in_key_order h pe1"
    proof (cases "eid pe0 = p")
      case True
      then have "pe0 = pe"
        using doc_same_entry [OF wf pe0(1) pe(1)] pe(2) by simp
      then show ?thesis
        unfolding pe0(2)
        using in_key_order_sorted_parent [OF wf flat pe ds cb sorted] by simp
    next
      case False
      then have "eid pe0 \<notin> fst ` set (g # gs)"
        using out pe0(2) by (simp add: g)
      then have "in_key_order h pe0"
        using Cons.prems(5) pe0(1) by blast
      then show ?thesis
        unfolding pe0(2) using in_key_order_other [OF f wf flat b0 pe0(1) False] by simp
    qed
  qed
  obtain d' where d': "sort_groups h gs ?d1 = Done d'" "block_places d' = block_places ?d1"
    "\<forall>pe\<in>set (doc_entries d'). in_key_order h pe"
    using Cons.IH [OF wf1 flat1 _ ok1 others] cons keys1 by auto
  show ?case
    using d' app places1 by (simp add: g)
qed

lemma short_sorted: "length xs \<le> 1 \<Longrightarrow> sorted_wrt R xs"
  by (cases xs) simp_all

lemma distinct_shorter: "distinct xs \<Longrightarrow> set xs \<subseteq> set ys \<Longrightarrow> length xs \<le> length ys"
  by (metis card_length card_mono distinct_card List.finite_set order_trans)

lemma distinct_child_entries:
  assumes wf: "wf_dom d" and pe: "pe \<in> set (doc_entries d)"
  shows "distinct (child_entries pe)"
proof -
  have "distinct (map eid (doc_entries d))"
    by (rule distinct_doc_ids [OF wf])
  have inj: "x = y" if "x \<in> set (child_entries pe)" "y \<in> set (child_entries pe)" "eid x = eid y"
    for x y
    using doc_same_entry [OF wf _ _ that(3)] child_entries_doc [OF pe] that(1,2) by blast
  obtain i t c a ks where n: "snd pe = Element i t c a ks"
    using entry_Element [of pe d] pe doc_entries_all [of d] by blast
  have dk: "distinct (concat (map ids ks))"
    using doc_distinct_ids [OF wf pe] by (simp add: n ids_Element)
  have "distinct (filter is_element ks)" 
    using dk
  proof (induction ks)
    case Nil
    then show ?case by simp
  next
    case (Cons k ks)
    have "k \<notin> set ks" if "is_element k"
    proof
      assume "k \<in> set ks"
      moreover have "nid k \<in> set (ids k)"
        using that by (cases k) (simp_all add: is_element_def ids_Element)
      ultimately show False
        using Cons.prems by auto
    qed
    then show ?case
      using Cons by auto
  qed
  then show ?thesis
    by (simp add: child_entries_def n distinct_map inj_on_def)
qed

lemma consistent_on_keys:
  "consistent_on h (map (chordKey h) (chord_blocks d)) \<Longrightarrow> keys_consistent h (block_keys h d)"
  unfolding consistent_on_def keys_consistent_def block_keys_def list_all_iff
  by (simp only: set_map) blast

text \<open>
  C2, as the script has it. On every page (no two elements share an identity) on
  which no chord block lies inside another chord block, and whose chord keys the
  comparison of the host orders, \<open>sortChordBlocks\<close> ends without an exception,
  the chord blocks of the document after it are those before it, and below every
  element of the document the chord blocks stand in nondecreasing order of their
  keys: each is followed only by blocks whose key does not compare smaller. This
  holds whatever the number of chord blocks is.
\<close>

theorem sortChordBlocks_sorts_flat_blocks:
  assumes "wf_dom d" "blocks_flat d"
    and "consistent_on h (map (chordKey h) (chord_blocks d))"
  shows "\<exists>d'. sortChordBlocks h d = Done d'
           \<and> set (map eid (chord_blocks d')) = set (map eid (chord_blocks d))
           \<and> list_all (in_key_order h) (doc_entries d')"
proof (cases "length (chord_blocks d) < 2")
  case True
  have "in_key_order h pe" if pe: "pe \<in> set (doc_entries d)" for pe
  proof -
    have "distinct (child_blocks pe)"
      unfolding child_blocks_def using distinct_child_entries [OF assms(1) pe] by simp
    then have "length (child_blocks pe) \<le> length (chord_blocks d)"
      using child_blocks_chord [OF pe] by (rule distinct_shorter)
    then show ?thesis
      unfolding in_key_order_def using True by (intro short_sorted) simp
  qed
  then show ?thesis
    using True by (simp add: sortChordBlocks_def list_all_iff)
next
  case False
  let ?gs = "group_blocks (chord_blocks d)"
  have ok: "groups_ok d ?gs"
    and keys: "fst ` set ?gs = {p. \<exists>b\<in>set (chord_blocks d). parentElement b = Some p}"
    using group_blocks_ok [OF assms(1)] by blast+
  have base: "\<forall>pe\<in>set (doc_entries d). eid pe \<notin> fst ` set ?gs \<longrightarrow> in_key_order h pe"
  proof (intro ballI impI)
    fix pe
    assume pe: "pe \<in> set (doc_entries d)" and out: "eid pe \<notin> fst ` set ?gs"
    have "child_blocks pe = []"
    proof (rule ccontr)
      assume "child_blocks pe \<noteq> []"
      then obtain b where "b \<in> set (child_blocks pe)"
        by (cases "child_blocks pe") auto
      then have "b \<in> set (chord_blocks d)" "parentElement b = Some (eid pe)"
        using child_blocks_iff [OF assms(1) pe] by simp_all
      then show False
        using out keys by blast
    qed
    then show "in_key_order h pe"
      by (simp add: in_key_order_def)
  qed
  obtain d' where d': "sort_groups h ?gs d = Done d'" "block_places d' = block_places d"
    "\<forall>pe\<in>set (doc_entries d'). in_key_order h pe"
    using sort_groups_sorted [OF assms(1,2) consistent_on_keys [OF assms(3)] ok base] by blast
  have "fst ` block_places d' = fst ` block_places d"
    using d'(2) by simp
  then have "set (map eid (chord_blocks d')) = set (map eid (chord_blocks d))"
    by (simp add: block_places_def image_image)
  then show ?thesis
    using False d' by (simp add: sortChordBlocks_def list_all_iff)
qed

subsection \<open>The order of the blocks after sorting\<close>

lemmas order_defs =
  in_key_order_def child_blocks_def child_entries_def is_block_def is_element_def

lemma page_chords_keys:
  "map (chordKey plain_host) (chord_blocks page_chords) = [[68, 55], [67], [65, 55]]"
  by (simp add: page_chords_def query_defs selector_defs sort_defs page_defs)

theorem sortChordBlocks_sorts_flat_blocks_witness:
  "wf_dom page_chords \<and> blocks_flat page_chords
   \<and> map (chordKey plain_host) (chord_blocks page_chords) = [[68, 55], [67], [65, 55]]
   \<and> consistent_on plain_host (map (chordKey plain_host) (chord_blocks page_chords))
   \<and> (\<exists>d'. sortChordBlocks plain_host page_chords = Done d'
         \<and> map (chordKey plain_host) (chord_blocks d') = [[65, 55], [67], [68, 55]]
         \<and> list_all (in_key_order plain_host) (doc_entries d'))"
proof -
  have a: "wf_dom page_chords"
    by (simp add: wf_dom_def page_chords_def query_defs page_defs)
  have b: "blocks_flat page_chords"
    by (simp add: blocks_flat_def is_block_def page_chords_def query_defs selector_defs
        sort_defs page_defs)
  have c: "consistent_on plain_host (map (chordKey plain_host) (chord_blocks page_chords))"
    unfolding page_chords_keys
    by (simp add: consistent_on_def plain_host_def toUpperASCII_def)
  have k: "map (chordKey plain_host)
             (chord_blocks (page_chords\<lparr>document :=
                [Element 0 ''body'' [] []
                  [Element 1 ''div'' [] []
                    [chord_block 30 [65, 55], chord_block 20 [67], chord_block 10 [68, 55]]]]\<rparr>))
           = [[65, 55], [67], [68, 55]]"
    by (simp add: page_chords_def query_defs selector_defs sort_defs page_defs)
  show ?thesis
    using sortChordBlocks_sorts_flat_blocks [OF a b c] a b c k
    by (auto simp: page_chords_keys sorted_page_chords)
qed

text \<open>
  C2 as stated fails on \<open>page_blocks_in_block\<close>. The list is sorted first, by the
  keys E and G, the outer block being read as G; then the blocks inside the outer
  block are sorted, A comes first, and the outer block reads A. It stays behind E.
\<close>

lemma sorted_blocks_in_block:
  "sortChordBlocks plain_host page_blocks_in_block =
     Done (page_blocks_in_block\<lparr>document :=
       [Element 0 ''body'' [] []
         [Element 1 ''div'' [] []
           [chord_block 40 [69],
            Element 10 ''div'' [''deu1fhf''] [] [chord_block 30 [65], chord_block 20 [71]]]]]\<rparr>)"
  by (simp add: page_blocks_in_block_def Let_def query_defs selector_defs sort_defs page_defs)

theorem sortChordBlocks_leaves_outer_blocks_unsorted:
  "2 \<le> length (chord_blocks page_blocks_in_block)
   \<and> sortChordBlocks plain_host page_blocks_in_block =
       Done (page_blocks_in_block\<lparr>document :=
         [Element 0 ''body'' [] []
           [Element 1 ''div'' [] []
             [chord_block 40 [69],
              Element 10 ''div'' [''deu1fhf''] [] [chord_block 30 [65], chord_block 20 [71]]]]]\<rparr>)
   \<and> \<not> list_all (in_key_order plain_host)
         (doc_entries (page_blocks_in_block\<lparr>document :=
           [Element 0 ''body'' [] []
             [Element 1 ''div'' [] []
               [chord_block 40 [69],
                Element 10 ''div'' [''deu1fhf''] [] [chord_block 30 [65], chord_block 20 [71]]]]]\<rparr>))"
proof -
  have a: "2 \<le> length (chord_blocks page_blocks_in_block)"
    by (simp add: page_blocks_in_block_def query_defs selector_defs sort_defs page_defs)
  have b: "\<not> list_all (in_key_order plain_host)
         (doc_entries (page_blocks_in_block\<lparr>document :=
           [Element 0 ''body'' [] []
             [Element 1 ''div'' [] []
               [chord_block 40 [69],
                Element 10 ''div'' [''deu1fhf''] [] [chord_block 30 [65], chord_block 20 [71]]]]]\<rparr>))"
    by (simp add: page_blocks_in_block_def order_defs query_defs selector_defs sort_defs page_defs)
  show ?thesis
    using a b sorted_blocks_in_block by simp
qed

end
